theory Spec2Isabelle
  imports Main
begin

section \<open>Data model of the dumper (dumper\_thread.c, constants.h)\<close>

text \<open>
  The embedding follows \<^verbatim>\<open>src/dumper_thread.c\<close>. C structs are records, pointers to
  packages are a datatype that says where the package lives, and every effect of the
  code on the outside (the log, the calls of \<^verbatim>\<open>stat(2)\<close>, the three XML files and the
  three databases) is an explicit component of the state. Functions of the repository
  that are called here but defined in other files (the RPM parser, the checksum, the
  XML dumper, the XML file and the database) are parameters, collected in the record
  \<open>ext\<close>.
\<close>

type_synonym GError = string
  \<comment> \<open>a set \<^verbatim>\<open>GError *\<close>, represented by its message; \<open>None\<close> is the NULL error\<close>

datatype cr_ChecksumType = CR_CHECKSUM_MD5 | CR_CHECKSUM_SHA1 | CR_CHECKSUM_SHA256

record stat =
  st_mtime :: int
  st_size :: int

text \<open>The fields of \<^verbatim>\<open>cr_Package\<close> that the dumper reads or writes; everything else the
  XML dumper and the databases look at is \<open>other_fields\<close>.\<close>

record cr_Package =
  name :: string
  pkgId :: string
  checksum_type :: string
  location_href :: string
  location_base :: "string option"
  time_file :: int
  size_package :: int
  rpm_header_start :: int
  rpm_header_end :: int
  other_fields :: string

record cr_XmlStruct =
  primary :: string
  filelists :: string
  other :: string

text \<open>A \<^verbatim>\<open>cr_Package *\<close> held by a worker: either the entry of the old metadata hash
  table stored under a key (shared, and mutated in place by the code), or a package
  loaded from the file, which the worker owns alone.\<close>

datatype pkg_ptr = MdEntry string | Fresh cr_Package

record PoolTask =
  task_id :: nat
  full_path :: string
  filename :: string
  path :: string

record BufferedTask =
  bt_id :: nat
  bt_res :: cr_XmlStruct
  bt_pkg :: pkg_ptr
  bt_location_href :: "string option"
  bt_pkg_from_md :: bool

datatype stream = Primary | Filelists | Other

type_synonym cr_XmlFile = "string list"
  \<comment> \<open>the chunks written to the file so far, oldest first\<close>

type_synonym cr_SqliteDb = "cr_Package list"
  \<comment> \<open>the packages inserted so far, oldest first\<close>

datatype LogLevel = G_CRITICAL | G_WARNING | G_DEBUG

text \<open>What the process does outside of \<^verbatim>\<open>struct UserData\<close>: the messages it logs and
  the paths it calls \<^verbatim>\<open>stat(2)\<close> on, both oldest first.\<close>

record World =
  log_msgs :: "(LogLevel \<times> string) list"
  stat_calls :: "string list"

text \<open>\<^verbatim>\<open>struct UserData\<close> (declared in dumper\_thread.h): the fields the code uses. The
  mutexes and condition variables have no field: a region between \<^verbatim>\<open>g_mutex_lock\<close> and
  \<^verbatim>\<open>g_mutex_unlock\<close> is one atomic transition of the model, and a \<^verbatim>\<open>g_cond_wait\<close> loop
  is the guard of that transition. \<open>ud_location_base\<close> and \<open>ud_checksum_type\<close> are
  the fields \<^verbatim>\<open>location_base\<close> and \<^verbatim>\<open>checksum_type\<close>, renamed apart from the package's.\<close>

record UserData =
  pri_f :: cr_XmlFile
  fil_f :: cr_XmlFile
  oth_f :: cr_XmlFile
  pri_db :: "cr_SqliteDb option"
  fil_db :: "cr_SqliteDb option"
  oth_db :: "cr_SqliteDb option"
  changelog_limit :: int
  ud_location_base :: "string option"
  repodir_name_len :: nat
  checksum_type_str :: string
  ud_checksum_type :: cr_ChecksumType
  checksum_cachedir :: "string option"
  package_count :: nat
  skip_stat :: bool
  old_metadata :: "(string \<rightharpoonup> cr_Package) option"
  id_pri :: nat
  id_fil :: nat
  id_oth :: nat
  buffer :: "BufferedTask list"

text \<open>The collaborators. \<open>stat_file\<close> is \<^verbatim>\<open>stat(2)\<close> (\<open>Inl\<close> carries
  \<^verbatim>\<open>strerror(errno)\<close>); \<open>add_chunk_error\<close> and \<open>db_add_error\<close> say whether a write to an
  XML file or a database fails, given what the sink holds and what is written.\<close>

record ext =
  stat_file :: "string \<Rightarrow> string + stat"
  cr_package_from_rpm_base :: "string \<Rightarrow> int \<Rightarrow> GError + cr_Package"
  cr_checksum_name_str :: "cr_ChecksumType \<Rightarrow> string"
  cr_checksum_file :: "string \<Rightarrow> cr_ChecksumType \<Rightarrow> GError + string"
  cr_get_header_byte_range :: "string \<Rightarrow> GError + (int \<times> int)"
  cr_xml_dump :: "cr_Package \<Rightarrow> GError + cr_XmlStruct"
  add_chunk_error :: "stream \<Rightarrow> cr_XmlFile \<Rightarrow> string \<Rightarrow> GError option"
  db_add_error :: "stream \<Rightarrow> cr_SqliteDb \<Rightarrow> cr_Package \<Rightarrow> GError option"

definition MAX_TASK_BUFFER_LEN :: nat where
  "MAX_TASK_BUFFER_LEN = 20"

definition nl :: string where
  "nl = [CHR 0x0A]"

definition g_log :: "LogLevel \<Rightarrow> string \<Rightarrow> World \<Rightarrow> World" where
  "g_log lvl msg w = w\<lparr>log_msgs := log_msgs w @ [(lvl, msg)]\<rparr>"

definition do_stat :: "ext \<Rightarrow> string \<Rightarrow> World \<Rightarrow> (string + stat) \<times> World" where
  "do_stat X p w = (stat_file X p, w\<lparr>stat_calls := stat_calls w @ [p]\<rparr>)"


section \<open>The queue of buffered tasks\<close>

definition buf_task_sort_func :: "BufferedTask \<Rightarrow> BufferedTask \<Rightarrow> int" where
  "buf_task_sort_func task_a task_b =
     (if bt_id task_a < bt_id task_b then - 1
      else if bt_id task_a = bt_id task_b then 0
      else 1)"

text \<open>Modelled from the spec: \<^verbatim>\<open>g_queue_insert_sorted\<close>, \<^verbatim>\<open>g_queue_peek_head\<close> and
  \<^verbatim>\<open>g_queue_pop_head\<close> are GLib's, not among the sources. The spec calls the buffer a
  structure ordered by id ascending whose minimum is peeked and popped; GLib inserts the
  new element before the first element that does not compare smaller than it.\<close>

fun g_queue_insert_sorted ::
  "BufferedTask list \<Rightarrow> BufferedTask \<Rightarrow> (BufferedTask \<Rightarrow> BufferedTask \<Rightarrow> int) \<Rightarrow> BufferedTask list" where
  "g_queue_insert_sorted [] d f = [d]"
| "g_queue_insert_sorted (x # xs) d f =
     (if f x d < 0 then x # g_queue_insert_sorted xs d f else d # x # xs)"

section \<open>The sinks\<close>

text \<open>Modelled from the spec: \<^verbatim>\<open>cr_xmlfile_add_chunk\<close> (xml\_file.c) and \<^verbatim>\<open>cr_db_add_pkg\<close>
  (sqlite.c) are not among the sources. The spec gives them as
  \<^verbatim>\<open>append_chunk(chunk_text) -> Result<(), IoError>\<close> and \<^verbatim>\<open>insert(package) -> Result<(), DbError>\<close>;
  a failed call leaves the sink as it was (the record is lost) and sets the error.\<close>

definition cr_xmlfile_add_chunk ::
  "ext \<Rightarrow> stream \<Rightarrow> cr_XmlFile \<Rightarrow> string \<Rightarrow> cr_XmlFile \<times> GError option" where
  "cr_xmlfile_add_chunk X s f chunk =
     (case add_chunk_error X s f chunk of
        None \<Rightarrow> (f @ [chunk], None)
      | Some e \<Rightarrow> (f, Some e))"

definition cr_db_add_pkg ::
  "ext \<Rightarrow> stream \<Rightarrow> cr_SqliteDb \<Rightarrow> cr_Package \<Rightarrow> cr_SqliteDb \<times> GError option" where
  "cr_db_add_pkg X s db p =
     (case db_add_error X s db p of
        None \<Rightarrow> (db @ [p], None)
      | Some e \<Rightarrow> (db, Some e))"

text \<open>\<^verbatim>\<open>if (tmp_err) { g_critical(...); g_clear_error(&tmp_err); }\<close>\<close>

definition critical_if_error :: "GError option \<Rightarrow> (GError \<Rightarrow> string) \<Rightarrow> World \<Rightarrow> World" where
  "critical_if_error tmp_err msg w =
     (case tmp_err of None \<Rightarrow> w | Some e \<Rightarrow> g_log G_CRITICAL (msg e) w)"

text \<open>Reading and writing through a package pointer. An entry of the old metadata is
  read at the moment of the access; a key that is not in the table is a pointer to
  nothing, and the access does not return.\<close>

definition deref :: "UserData \<Rightarrow> pkg_ptr \<Rightarrow> cr_Package option" where
  "deref u p =
     (case p of
        Fresh pkg \<Rightarrow> Some pkg
      | MdEntry k \<Rightarrow> (case old_metadata u of None \<Rightarrow> None | Some ht \<Rightarrow> ht k))"

definition set_location :: "string \<Rightarrow> string \<Rightarrow> string option \<Rightarrow> UserData \<Rightarrow> UserData" where
  "set_location k href base u =
     (case old_metadata u of
        None \<Rightarrow> u
      | Some ht \<Rightarrow>
          (case ht k of
             None \<Rightarrow> u
           | Some md \<Rightarrow>
               u\<lparr>old_metadata := Some (ht(k \<mapsto> md\<lparr>location_href := href, location_base := base\<rparr>))\<rparr>))"

section \<open>write\_pkg (lines 62-141)\<close>

text \<open>Each of the three blocks of \<^verbatim>\<open>write_pkg\<close> is one function. \<open>None\<close> means that the
  block does not return: the caller waits on the condition variable because the counter
  is not its id (nothing else runs in a sequential composition, so it waits for ever), or
  the package pointer points to nothing. The third block passes NULL as the error of
  \<^verbatim>\<open>cr_db_add_pkg\<close>, so \<^verbatim>\<open>tmp_err\<close> is still NULL when it is tested.\<close>

fun write_pri ::
  "ext \<Rightarrow> nat \<Rightarrow> cr_XmlStruct \<Rightarrow> pkg_ptr \<Rightarrow> UserData \<times> World \<Rightarrow> (UserData \<times> World) option" where
  "write_pri X i res pkg (u, w) =
       (if id_pri u \<noteq> i then None
        else
          let u1 = u\<lparr>id_pri := id_pri u + 1\<rparr>;
              (f, tmp_err) = cr_xmlfile_add_chunk X Primary (pri_f u1) (primary res);
              u2 = u1\<lparr>pri_f := f\<rparr>;
              w2 = critical_if_error tmp_err
                     (\<lambda>e. ''Cannot add primary chunk:'' @ nl @ primary res @ nl @ ''Error: '' @ e) w
          in (case pri_db u2 of
               None \<Rightarrow> Some (u2, w2)
             | Some db \<Rightarrow>
                 (case deref u2 pkg of
                    None \<Rightarrow> None
                  | Some p \<Rightarrow>
                      let (db', tmp_err) = cr_db_add_pkg X Primary db p;
                          w3 = critical_if_error tmp_err
                                 (\<lambda>e. ''Cannot add record of '' @ name p @ '' ('' @ pkgId p
                                        @ '') to primary db: '' @ e) w2
                      in Some (u2\<lparr>pri_db := Some db'\<rparr>, w3))))"

fun write_fil ::
  "ext \<Rightarrow> nat \<Rightarrow> cr_XmlStruct \<Rightarrow> pkg_ptr \<Rightarrow> UserData \<times> World \<Rightarrow> (UserData \<times> World) option" where
  "write_fil X i res pkg (u, w) =
       (if id_fil u \<noteq> i then None
        else
          let u1 = u\<lparr>id_fil := id_fil u + 1\<rparr>;
              (f, tmp_err) = cr_xmlfile_add_chunk X Filelists (fil_f u1) (filelists res);
              u2 = u1\<lparr>fil_f := f\<rparr>;
              w2 = critical_if_error tmp_err
                     (\<lambda>e. ''Cannot add filelists chunk:'' @ nl @ filelists res @ nl @ ''Error: '' @ e) w
          in (case fil_db u2 of
               None \<Rightarrow> Some (u2, w2)
             | Some db \<Rightarrow>
                 (case deref u2 pkg of
                    None \<Rightarrow> None
                  | Some p \<Rightarrow>
                      let (db', tmp_err) = cr_db_add_pkg X Filelists db p;
                          w3 = critical_if_error tmp_err
                                 (\<lambda>e. ''Cannot add record of '' @ name p @ '' ('' @ pkgId p
                                        @ '') to filelists db: '' @ e) w2
                      in Some (u2\<lparr>fil_db := Some db'\<rparr>, w3))))"

fun write_oth ::
  "ext \<Rightarrow> nat \<Rightarrow> cr_XmlStruct \<Rightarrow> pkg_ptr \<Rightarrow> UserData \<times> World \<Rightarrow> (UserData \<times> World) option" where
  "write_oth X i res pkg (u, w) =
       (if id_oth u \<noteq> i then None
        else
          let u1 = u\<lparr>id_oth := id_oth u + 1\<rparr>;
              (f, tmp_err) = cr_xmlfile_add_chunk X Other (oth_f u1) (other res);
              u2 = u1\<lparr>oth_f := f\<rparr>;
              w2 = critical_if_error tmp_err
                     (\<lambda>e. ''Cannot add other chunk:'' @ nl @ other res @ nl @ ''Error: '' @ e) w
          in (case oth_db u2 of
               None \<Rightarrow> Some (u2, w2)
             | Some db \<Rightarrow>
                 (case deref u2 pkg of
                    None \<Rightarrow> None
                  | Some p \<Rightarrow>
                      let (db', ignored) = cr_db_add_pkg X Other db p;
                          tmp_err = None;
                          w3 = critical_if_error tmp_err
                                 (\<lambda>e. ''Cannot add record of '' @ name p @ '' ('' @ pkgId p
                                        @ '') to other db: '' @ e) w2
                      in Some (u2\<lparr>oth_db := Some db'\<rparr>, w3))))"

definition write_pkg ::
  "ext \<Rightarrow> nat \<Rightarrow> cr_XmlStruct \<Rightarrow> pkg_ptr \<Rightarrow> UserData \<times> World \<Rightarrow> (UserData \<times> World) option" where
  "write_pkg X i res pkg s =
     Option.bind (write_pri X i res pkg s) (\<lambda>s1.
     Option.bind (write_fil X i res pkg s1) (\<lambda>s2.
     write_oth X i res pkg s2))"

definition write_stream ::
  "stream \<Rightarrow> ext \<Rightarrow> nat \<Rightarrow> cr_XmlStruct \<Rightarrow> pkg_ptr \<Rightarrow> UserData \<times> World \<Rightarrow> (UserData \<times> World) option" where
  "write_stream st = (case st of Primary \<Rightarrow> write_pri | Filelists \<Rightarrow> write_fil | Other \<Rightarrow> write_oth)"

section \<open>load\_rpm (lines 143-230)\<close>

text \<open>\<^verbatim>\<open>get_checksum\<close> and \<^verbatim>\<open>load_rpm\<close> return a pointer and set an error through
  \<^verbatim>\<open>GError **\<close>; the model returns both, (result, error). When the checksum fails,
  \<^verbatim>\<open>get_checksum\<close> sets the error it was given, which is \<^verbatim>\<open>load_rpm\<close>'s local
  \<^verbatim>\<open>tmp_err\<close>, and \<^verbatim>\<open>load_rpm\<close> leaves through \<^verbatim>\<open>errexit\<close> without setting its own
  \<^verbatim>\<open>err\<close>.\<close>

definition get_checksum ::
  "ext \<Rightarrow> string \<Rightarrow> cr_ChecksumType \<Rightarrow> string option \<Rightarrow> string option \<times> GError option" where
  "get_checksum X fname type cachedir =
     (case cr_checksum_file X fname type of
        Inr checksum \<Rightarrow> (Some checksum, None)
      | Inl e \<Rightarrow> (None, Some (''Error while checksum calculation: '' @ e)))"

definition load_rpm ::
  "ext \<Rightarrow> string \<Rightarrow> cr_ChecksumType \<Rightarrow> string option \<Rightarrow> string \<Rightarrow> string option \<Rightarrow> int
     \<Rightarrow> stat option \<Rightarrow> World \<Rightarrow> (cr_Package option \<times> GError option) \<times> World" where
  "load_rpm X fname ctype cachedir href base climit stat_buf w =
     (case cr_package_from_rpm_base X fname climit of
        Inl e \<Rightarrow> ((None, Some e), w)
      | Inr pkg0 \<Rightarrow>
          let pkg1 = pkg0\<lparr>location_href := href, location_base := base,
                          checksum_type := cr_checksum_name_str X ctype\<rparr>;
              (st, w1) = (case stat_buf of
                            None \<Rightarrow> do_stat X fname w
                          | Some sb \<Rightarrow> (Inr sb, w))
          in (case st of
               Inl errno \<Rightarrow>
                 ((None, Some (''stat('' @ fname @ '') failed: '' @ errno)),
                  g_log G_WARNING (''load_rpm: stat('' @ fname @ '') error ('' @ errno @ '')'') w1)
             | Inr sb \<Rightarrow>
                 let pkg2 = pkg1\<lparr>time_file := st_mtime sb, size_package := st_size sb\<rparr>
                 in (case get_checksum X fname ctype cachedir of
                      (None, tmp_err) \<Rightarrow> ((None, None), w1)
                    | (Some checksum, tmp_err) \<Rightarrow>
                        (case cr_get_header_byte_range X fname of
                           Inl e \<Rightarrow>
                             ((None, Some (''Error while determinig header range: '' @ e)), w1)
                         | Inr (hs, he) \<Rightarrow>
                             ((Some (pkg2\<lparr>pkgId := checksum, rpm_header_start := hs,
                                          rpm_header_end := he\<rparr>), None), w1)))))"


section \<open>cr\_dumper\_thread (lines 233-433)\<close>

text \<open>The worker is a control flow graph: a program counter names the place the
  invocation has reached and carries the local variables that are live there.

  \<^item> \<open>PC_Stat\<close>: entry, lines 246-257 (the \<^verbatim>\<open>stat\<close> of the file).
  \<^item> \<open>PC_Update stat_buf\<close>: lines 260-289 (the look-up in the old metadata);
    \<open>stat_buf = None\<close> is the local \<^verbatim>\<open>struct stat\<close> that nothing has written yet.
  \<^item> \<open>PC_Load old_used md\<close>: lines 292-324 (\<^verbatim>\<open>load_rpm\<close> and \<^verbatim>\<open>cr_xml_dump\<close>);
    \<open>md\<close> is the key of the entry found, \<open>None\<close> for NULL.
  \<^item> \<open>PC_Buffer res pkg md\<close>: lines 327-366, the region under \<^verbatim>\<open>mutex_buffer\<close>.
  \<^item> \<open>PC_Write s res pkg\<close>: line 369, the call of \<^verbatim>\<open>write_pkg\<close>, in front of the
    block of stream \<open>s\<close>.
  \<^item> \<open>PC_Cleanup failed\<close>: the label \<^verbatim>\<open>task_cleanup\<close>, the test of line 379.
    \<open>failed\<close> records how the label was reached (by \<^verbatim>\<open>goto\<close>, or by falling through
    after \<^verbatim>\<open>write_pkg\<close>); the code has no such variable and no transition reads it.
  \<^item> \<open>PC_Skip s\<close>: lines 381-400, in front of the block of stream \<open>s\<close>.
  \<^item> \<open>PC_Drain\<close>: the head of the loop of lines 409-430, the region under
    \<^verbatim>\<open>mutex_buffer\<close>.
  \<^item> \<open>PC_DrainWrite s buf_task\<close>: line 417, \<^verbatim>\<open>write_pkg\<close> of a popped task.
  \<^item> \<open>PC_Done\<close>: the function has returned (line 363 or line 432).
  \<^item> \<open>PC_Abort\<close>: the \<^verbatim>\<open>assert\<close> of line 298 failed.
  \<^item> \<open>PC_Undefined\<close>: the code read the \<^verbatim>\<open>struct stat\<close> that nothing had written.
\<close>

datatype pc =
    PC_Stat
  | PC_Update "stat option"
  | PC_Load bool "string option"
  | PC_Buffer cr_XmlStruct pkg_ptr "string option"
  | PC_Write stream cr_XmlStruct pkg_ptr
  | PC_Cleanup bool
  | PC_Skip stream
  | PC_Drain
  | PC_DrainWrite stream BufferedTask
  | PC_Done
  | PC_Abort
  | PC_Undefined

text \<open>\<^verbatim>\<open>task->full_path + udata->repodir_name_len\<close> (line 248); the producer builds
  \<^verbatim>\<open>full_path\<close> from the repository path, so the offset is inside the string.\<close>

definition task_location_href :: "UserData \<Rightarrow> PoolTask \<Rightarrow> string" where
  "task_location_href u t = drop (repodir_name_len u) (full_path t)"

text \<open>Lines 251-257.\<close>

fun step_stat :: "ext \<Rightarrow> PoolTask \<Rightarrow> UserData \<times> World \<Rightarrow> (UserData \<times> World \<times> pc) option" where
  "step_stat X t (u, w) =
     (if old_metadata u \<noteq> None \<and> \<not> skip_stat u then
        (case do_stat X (full_path t) w of
           (Inl errno, w1) \<Rightarrow>
             Some (u, g_log G_CRITICAL (''Stat() on '' @ full_path t @ '': '' @ errno) w1,
                   PC_Cleanup True)
         | (Inr sb, w1) \<Rightarrow> Some (u, w1, PC_Update (Some sb)))
      else Some (u, w, PC_Update None))"

text \<open>Lines 259-289. The comparison of line 271 reads \<^verbatim>\<open>stat_buf\<close>.\<close>

fun step_update ::
  "ext \<Rightarrow> PoolTask \<Rightarrow> stat option \<Rightarrow> UserData \<times> World \<Rightarrow> (UserData \<times> World \<times> pc) option" where
  "step_update X t stat_buf (u, w) =
     (case old_metadata u of
        None \<Rightarrow> Some (u, w, PC_Load False None)
      | Some ht \<Rightarrow>
          (case ht (filename t) of
             None \<Rightarrow> Some (u, w, PC_Load False None)
           | Some md \<Rightarrow>
               (let w1 = g_log G_DEBUG (''CACHE HIT '' @ filename t) w;
                    reuse = (set_location (filename t) (task_location_href u t)
                               (ud_location_base u) u, w1, PC_Load True (Some (filename t)))
                in if skip_stat u then Some reuse
                   else (case stat_buf of
                           None \<Rightarrow> Some (u, w1, PC_Undefined)
                         | Some sb \<Rightarrow>
                             if st_mtime sb = time_file md
                                \<and> st_size sb = size_package md
                                \<and> checksum_type_str u = checksum_type md
                             then Some reuse
                             else Some (u, g_log G_DEBUG (filename t
                                            @ '' metadata are obsolete -> generating new'') w1,
                                        PC_Load False (Some (filename t)))))))"

text \<open>Lines 291-324. \<^verbatim>\<open>load_rpm\<close> is called with NULL for \<^verbatim>\<open>stat_buf\<close>.\<close>

fun step_load ::
  "ext \<Rightarrow> PoolTask \<Rightarrow> bool \<Rightarrow> string option \<Rightarrow> UserData \<times> World \<Rightarrow> (UserData \<times> World \<times> pc) option" where
  "step_load X t old_used md (u, w) =
     (if \<not> old_used then
        (case load_rpm X (full_path t) (ud_checksum_type u) (checksum_cachedir u)
                (task_location_href u t) (ud_location_base u) (changelog_limit u) None w of
           ((None, None), w1) \<Rightarrow> Some (u, w1, PC_Abort)
         | ((None, Some e), w1) \<Rightarrow>
             Some (u, g_log G_WARNING (''Cannot read package: '' @ full_path t @ '': '' @ e) w1,
                   PC_Cleanup True)
         | ((Some pkg, tmp_err), w1) \<Rightarrow>
             (case cr_xml_dump X pkg of
                Inl e \<Rightarrow>
                  Some (u, g_log G_CRITICAL (''Cannot dump XML for '' @ name pkg @ '' (''
                                               @ pkgId pkg @ ''): '' @ e) w1,
                        PC_Cleanup True)
              | Inr res \<Rightarrow> Some (u, w1, PC_Buffer res (Fresh pkg) md)))
      else
        (case md of
           None \<Rightarrow> None
         | Some k \<Rightarrow>
             (case deref u (MdEntry k) of
                None \<Rightarrow> None
              | Some m \<Rightarrow>
                  (case cr_xml_dump X m of
                     Inl e \<Rightarrow>
                       Some (u, g_log G_CRITICAL (''Cannot dump XML for '' @ name m @ '' (''
                                                    @ pkgId m @ ''): '' @ e) w,
                             PC_Cleanup True)
                   | Inr res \<Rightarrow> Some (u, w, PC_Buffer res (MdEntry k) md)))))"

text \<open>\<^verbatim>\<open>pkg == md\<close>\<close>

definition pkg_is_md :: "pkg_ptr \<Rightarrow> string option \<Rightarrow> bool" where
  "pkg_is_md pkg md = (case pkg of MdEntry k \<Rightarrow> md = Some k | Fresh p \<Rightarrow> False)"

text \<open>\<^verbatim>\<open>ptr->location_href = href\<close>, which does not return when the pointer points to
  nothing.\<close>

definition set_location_href :: "pkg_ptr \<Rightarrow> string \<Rightarrow> UserData \<Rightarrow> UserData option" where
  "set_location_href pkg href u =
     (case pkg of
        Fresh p \<Rightarrow> Some u
      | MdEntry k \<Rightarrow>
          (case deref u (MdEntry k) of
             None \<Rightarrow> None
           | Some m \<Rightarrow> Some (set_location k href (location_base m) u)))"

text \<open>Lines 326-366: the region under \<^verbatim>\<open>mutex_buffer\<close>.\<close>

fun step_buffer ::
  "ext \<Rightarrow> PoolTask \<Rightarrow> cr_XmlStruct \<Rightarrow> pkg_ptr \<Rightarrow> string option \<Rightarrow> UserData \<times> World
     \<Rightarrow> (UserData \<times> World \<times> pc) option" where
  "step_buffer X t res pkg md (u, w) =
     (if length (buffer u) < MAX_TASK_BUFFER_LEN
         \<and> id_pri u \<noteq> task_id t
         \<and> package_count u > task_id t + 1
      then
        (let buf_task = \<lparr>bt_id = task_id t, bt_res = res, bt_pkg = pkg,
                         bt_location_href =
                           (if pkg_is_md pkg md then Some (task_location_href u t) else None),
                         bt_pkg_from_md = pkg_is_md pkg md\<rparr>
         in case (if pkg_is_md pkg md
                  then set_location_href pkg (task_location_href u t) u else Some u) of
              None \<Rightarrow> None
            | Some u1 \<Rightarrow>
                Some (u1\<lparr>buffer := g_queue_insert_sorted (buffer u1) buf_task buf_task_sort_func\<rparr>,
                      w, PC_Done))
      else Some (u, w, PC_Write Primary res pkg))"

text \<open>The blocks of lines 381-400: wait for the counter, increment it.\<close>

definition skip_pri :: "nat \<Rightarrow> UserData \<Rightarrow> UserData option" where
  "skip_pri i u = (if id_pri u \<noteq> i then None else Some (u\<lparr>id_pri := id_pri u + 1\<rparr>))"

definition skip_fil :: "nat \<Rightarrow> UserData \<Rightarrow> UserData option" where
  "skip_fil i u = (if id_fil u \<noteq> i then None else Some (u\<lparr>id_fil := id_fil u + 1\<rparr>))"

definition skip_oth :: "nat \<Rightarrow> UserData \<Rightarrow> UserData option" where
  "skip_oth i u = (if id_oth u \<noteq> i then None else Some (u\<lparr>id_oth := id_oth u + 1\<rparr>))"

definition skip_stream :: "stream \<Rightarrow> nat \<Rightarrow> UserData \<Rightarrow> UserData option" where
  "skip_stream st = (case st of Primary \<Rightarrow> skip_pri | Filelists \<Rightarrow> skip_fil | Other \<Rightarrow> skip_oth)"

text \<open>Lines 409-415 and 426-429: the head of the drain loop, under \<^verbatim>\<open>mutex_buffer\<close>.\<close>

fun step_drain :: "UserData \<times> World \<Rightarrow> (UserData \<times> World \<times> pc) option" where
  "step_drain (u, w) =
     (case buffer u of
        [] \<Rightarrow> Some (u, w, PC_Done)
      | buf_task # rest \<Rightarrow>
          if bt_id buf_task = id_pri u
          then Some (u\<lparr>buffer := rest\<rparr>, w, PC_DrainWrite Primary buf_task)
          else Some (u, w, PC_Done))"

text \<open>One transition of an invocation. \<open>None\<close>: the invocation cannot move (it waits,
  it has returned, the process has aborted, or the behaviour is undefined).\<close>

fun thread_step ::
  "ext \<Rightarrow> PoolTask \<Rightarrow> UserData \<times> World \<times> pc \<Rightarrow> (UserData \<times> World \<times> pc) option" where
  "thread_step X t (u, w, PC_Stat) = step_stat X t (u, w)"
| "thread_step X t (u, w, PC_Update stat_buf) = step_update X t stat_buf (u, w)"
| "thread_step X t (u, w, PC_Load old_used md) = step_load X t old_used md (u, w)"
| "thread_step X t (u, w, PC_Buffer res pkg md) = step_buffer X t res pkg md (u, w)"
| "thread_step X t (u, w, PC_Write Primary res pkg) =
     map_option (\<lambda>(u1, w1). (u1, w1, PC_Write Filelists res pkg))
       (write_pri X (task_id t) res pkg (u, w))"
| "thread_step X t (u, w, PC_Write Filelists res pkg) =
     map_option (\<lambda>(u1, w1). (u1, w1, PC_Write Other res pkg))
       (write_fil X (task_id t) res pkg (u, w))"
| "thread_step X t (u, w, PC_Write Other res pkg) =
     map_option (\<lambda>(u1, w1). (u1, w1, PC_Cleanup False))
       (write_oth X (task_id t) res pkg (u, w))"
| "thread_step X t (u, w, PC_Cleanup failed) =
     (if id_pri u \<le> task_id t then Some (u, w, PC_Skip Primary) else Some (u, w, PC_Drain))"
| "thread_step X t (u, w, PC_Skip Primary) =
     map_option (\<lambda>u1. (u1, w, PC_Skip Filelists)) (skip_pri (task_id t) u)"
| "thread_step X t (u, w, PC_Skip Filelists) =
     map_option (\<lambda>u1. (u1, w, PC_Skip Other)) (skip_fil (task_id t) u)"
| "thread_step X t (u, w, PC_Skip Other) =
     map_option (\<lambda>u1. (u1, w, PC_Drain)) (skip_oth (task_id t) u)"
| "thread_step X t (u, w, PC_Drain) = step_drain (u, w)"
| "thread_step X t (u, w, PC_DrainWrite Primary b) =
     map_option (\<lambda>(u1, w1). (u1, w1, PC_DrainWrite Filelists b))
       (write_pri X (bt_id b) (bt_res b) (bt_pkg b) (u, w))"
| "thread_step X t (u, w, PC_DrainWrite Filelists b) =
     map_option (\<lambda>(u1, w1). (u1, w1, PC_DrainWrite Other b))
       (write_fil X (bt_id b) (bt_res b) (bt_pkg b) (u, w))"
| "thread_step X t (u, w, PC_DrainWrite Other b) =
     map_option (\<lambda>(u1, w1). (u1, w1, PC_Drain))
       (write_oth X (bt_id b) (bt_res b) (bt_pkg b) (u, w))"
| "thread_step X t (u, w, PC_Done) = None"
| "thread_step X t (u, w, PC_Abort) = None"
| "thread_step X t (u, w, PC_Undefined) = None"


text \<open>The front of the worker: from wherever the invocation stands in lines 246-324 to
  the end of line 324, that is, to the buffering decision, to \<^verbatim>\<open>task_cleanup\<close>, or to a
  place it never leaves. The three steps touch nothing that a mutex protects.\<close>

definition front_load ::
  "ext \<Rightarrow> PoolTask \<Rightarrow> (UserData \<times> World \<times> pc) option \<Rightarrow> (UserData \<times> World \<times> pc) option" where
  "front_load X t r =
     (case r of
        Some (u, w, PC_Load old_used md) \<Rightarrow> step_load X t old_used md (u, w)
      | _ \<Rightarrow> r)"

definition front_update ::
  "ext \<Rightarrow> PoolTask \<Rightarrow> (UserData \<times> World \<times> pc) option \<Rightarrow> (UserData \<times> World \<times> pc) option" where
  "front_update X t r =
     front_load X t
       (case r of
          Some (u, w, PC_Update stat_buf) \<Rightarrow> step_update X t stat_buf (u, w)
        | _ \<Rightarrow> r)"

definition front ::
  "ext \<Rightarrow> PoolTask \<Rightarrow> UserData \<times> World \<times> pc \<Rightarrow> (UserData \<times> World \<times> pc) option" where
  "front X t s =
     front_update X t
       (case s of
          (u, w, PC_Stat) \<Rightarrow> step_stat X t (u, w)
        | _ \<Rightarrow> Some s)"

text \<open>A whole invocation run alone: the transitions are taken one after the other until
  the function has returned. \<open>None\<close>: it never returns.\<close>

partial_function (option) run_thread ::
  "ext \<Rightarrow> PoolTask \<Rightarrow> UserData \<times> World \<times> pc \<Rightarrow> (UserData \<times> World) option" where
  "run_thread X t s =
     (if snd (snd s) = PC_Done then Some (fst s, fst (snd s))
      else Option.bind (thread_step X t s) (run_thread X t))"

definition cr_dumper_thread ::
  "ext \<Rightarrow> PoolTask \<Rightarrow> UserData \<times> World \<Rightarrow> (UserData \<times> World) option" where
  "cr_dumper_thread X t s = (case s of (u, w) \<Rightarrow> run_thread X t (u, w, PC_Stat))"

text \<open>The serial run: one thread calls the worker on the tasks in the order of the list.\<close>

fun serial_run ::
  "ext \<Rightarrow> PoolTask list \<Rightarrow> UserData \<times> World \<Rightarrow> (UserData \<times> World) option" where
  "serial_run X [] s = Some s"
| "serial_run X (t # ts) s = Option.bind (cr_dumper_thread X t s) (serial_run X ts)"

section \<open>The thread pool\<close>

text \<open>The state of a run: the shared \<^verbatim>\<open>UserData\<close>, the world, and the place of the
  invocation of every task (invocation \<open>i\<close> works on the task \<open>ts ! i\<close>). An invocation at
  \<open>PC_Stat\<close> has not been started: its task is in the queue of the pool. A pool of
  \<open>pool\<close> threads starts a task only while fewer than \<open>pool\<close> invocations are running.
  The order in which the pool starts the tasks is not constrained. After a failed
  \<^verbatim>\<open>assert\<close> the process is gone and nothing moves.

  A schedule is the list of the invocations that move, one transition each, in the order
  in which they move; \<open>run_schedule\<close> is \<open>None\<close> when the schedule asks an invocation to
  move that cannot.\<close>

record sys =
  ud :: UserData
  world :: World
  pcs :: "nat \<Rightarrow> pc"

definition running :: "pc \<Rightarrow> bool" where
  "running p = (p \<noteq> PC_Stat \<and> p \<noteq> PC_Done)"

definition n_running :: "PoolTask list \<Rightarrow> sys \<Rightarrow> nat" where
  "n_running ts s = length (filter (\<lambda>i. running (pcs s i)) [0..<length ts])"

definition aborted :: "PoolTask list \<Rightarrow> sys \<Rightarrow> bool" where
  "aborted ts s = list_ex (\<lambda>i. pcs s i = PC_Abort) [0..<length ts]"

definition may_move :: "PoolTask list \<Rightarrow> nat \<Rightarrow> nat \<Rightarrow> sys \<Rightarrow> bool" where
  "may_move ts pool i s =
     (i < length ts \<and> \<not> aborted ts s \<and> (if pcs s i = PC_Stat then n_running ts s < pool else True))"

definition sched_step :: "ext \<Rightarrow> PoolTask list \<Rightarrow> nat \<Rightarrow> nat \<Rightarrow> sys \<Rightarrow> sys option" where
  "sched_step X ts pool i s =
     (if may_move ts pool i s then
        (case thread_step X (ts ! i) (ud s, world s, pcs s i) of
           None \<Rightarrow> None
         | Some (u', w', pc') \<Rightarrow> Some \<lparr>ud = u', world = w', pcs = (pcs s)(i := pc')\<rparr>)
      else None)"

fun run_schedule :: "ext \<Rightarrow> PoolTask list \<Rightarrow> nat \<Rightarrow> nat list \<Rightarrow> sys \<Rightarrow> sys option" where
  "run_schedule X ts pool [] s = Some s"
| "run_schedule X ts pool (i # sched) s =
     Option.bind (sched_step X ts pool i s) (run_schedule X ts pool sched)"

definition empty_world :: World where
  "empty_world = \<lparr>log_msgs = [], stat_calls = []\<rparr>"

definition init_sys :: "UserData \<Rightarrow> sys" where
  "init_sys u = \<lparr>ud = u, world = empty_world, pcs = (\<lambda>i. PC_Stat)\<rparr>"

text \<open>What the producer sets up before it starts the pool: the counters are 0, the
  buffer is empty, \<^verbatim>\<open>package_count\<close> is the number of tasks, and the task at position
  \<open>i\<close> has id \<open>i\<close>.\<close>

definition start_ok :: "PoolTask list \<Rightarrow> UserData \<Rightarrow> bool" where
  "start_ok ts u =
     (id_pri u = 0 \<and> id_fil u = 0 \<and> id_oth u = 0 \<and> buffer u = []
      \<and> package_count u = length ts \<and> map task_id ts = [0..<length ts])"

definition all_returned :: "PoolTask list \<Rightarrow> sys \<Rightarrow> bool" where
  "all_returned ts s = list_all (\<lambda>i. pcs s i = PC_Done) [0..<length ts]"

section \<open>Concrete inputs\<close>

text \<open>A small repository under \<^verbatim>\<open>/r\<close>, used to evaluate the definitions: every file can
  be read except \<^verbatim>\<open>/r/gone.rpm\<close> (no such file) and \<^verbatim>\<open>/r/bad.rpm\<close> (not a package); the
  XML of a package shows its \<^verbatim>\<open>location_href\<close>.\<close>

definition ex_pkg :: "string \<Rightarrow> cr_Package" where
  "ex_pkg n = \<lparr>name = n, pkgId = ''0a'', checksum_type = ''sha256'', location_href = ''old'',
      location_base = None, time_file = 100, size_package = 10, rpm_header_start = 0,
      rpm_header_end = 0, other_fields = ''''\<rparr>"

definition ex_dump :: "cr_Package \<Rightarrow> cr_XmlStruct" where
  "ex_dump p = \<lparr>primary = ''P '' @ location_href p, filelists = ''F '' @ location_href p,
      other = ''O '' @ location_href p\<rparr>"

definition ex_ext :: ext where
  "ex_ext = \<lparr>
     stat_file = (\<lambda>p. if p = ''/r/gone.rpm'' then Inl ''No such file''
                       else Inr \<lparr>st_mtime = 100, st_size = 10\<rparr>),
     cr_package_from_rpm_base = (\<lambda>p n. if p = ''/r/bad.rpm'' then Inl ''bad header''
                                       else Inr (ex_pkg p)),
     cr_checksum_name_str = (\<lambda>c. ''sha256''),
     cr_checksum_file = (\<lambda>p c. Inr ''c0ffee''),
     cr_get_header_byte_range = (\<lambda>p. Inr (96, 1000)),
     cr_xml_dump = (\<lambda>p. Inr (ex_dump p)),
     add_chunk_error = (\<lambda>s f c. None),
     db_add_error = (\<lambda>s db p. None)\<rparr>"

definition ex_ud :: UserData where
  "ex_ud = \<lparr>pri_f = [], fil_f = [], oth_f = [], pri_db = None, fil_db = None, oth_db = None,
     changelog_limit = 10, ud_location_base = None, repodir_name_len = 3,
     checksum_type_str = ''sha256'', ud_checksum_type = CR_CHECKSUM_SHA256,
     checksum_cachedir = None, package_count = 1, skip_stat = False,
     old_metadata = Some [''a.rpm'' \<mapsto> ex_pkg ''a''],
     id_pri = 0, id_fil = 0, id_oth = 0, buffer = []\<rparr>"

definition ex_task :: "nat \<Rightarrow> string \<Rightarrow> PoolTask" where
  "ex_task i f = \<lparr>task_id = i, full_path = ''/r/'' @ f, filename = f, path = ''/r''\<rparr>"

definition ex_res :: cr_XmlStruct where
  "ex_res = \<lparr>primary = ''<p/>'', filelists = ''<f/>'', other = ''<o/>''\<rparr>"

definition ex_ext_dbfail :: ext where
  "ex_ext_dbfail = ex_ext\<lparr>db_add_error := (\<lambda>s db p. Some ''disk full'')\<rparr>"

definition ex_ud_db :: UserData where
  "ex_ud_db = ex_ud\<lparr>pri_db := Some [], fil_db := Some [], oth_db := Some []\<rparr>"

text \<open>Three tasks: the first is not a package, the second has an entry in the old
  metadata that is still fresh, the third is parsed from its file. In the schedule, the
  worker of task 1 finishes first and puts its result into the buffer; the worker of task
  0 fails, advances the counters, and writes the buffered result in its drain loop; the
  worker of task 2 runs last.\<close>

definition ex_tasks3 :: "PoolTask list" where
  "ex_tasks3 = [ex_task 0 ''bad.rpm'', ex_task 1 ''a.rpm'', ex_task 2 ''b.rpm'']"

definition ex_ud3 :: UserData where
  "ex_ud3 = ex_ud\<lparr>package_count := 3\<rparr>"

definition ex_sched3 :: "nat list" where
  "ex_sched3 = [1, 1, 1, 1,  0, 0, 0, 0, 0, 0, 0, 0, 0, 0, 0, 0,  2, 2, 2, 2, 2, 2, 2, 2, 2]"

text \<open>Two tasks that both succeed, and a schedule that stops when the worker of task 0
  has written its primary record and the worker of task 1 is about to write its own.\<close>

definition ex_tasks2 :: "PoolTask list" where
  "ex_tasks2 = [ex_task 0 ''a.rpm'', ex_task 1 ''b.rpm'']"

definition ex_ud2 :: UserData where
  "ex_ud2 = ex_ud\<lparr>package_count := 2\<rparr>"

definition ex_sched2 :: "nat list" where
  "ex_sched2 = [0, 0, 0, 0, 0,  1, 1, 1, 1]"

text \<open>Two packages that parse, in a repository where no checksum can be computed.\<close>

definition ex_ext_cksum :: ext where
  "ex_ext_cksum = ex_ext\<lparr>cr_checksum_file := (\<lambda>p c. Inl ''read error'')\<rparr>"

definition ex_tasks2c :: "PoolTask list" where
  "ex_tasks2c = [ex_task 0 ''b.rpm'', ex_task 1 ''c.rpm'']"

section \<open>Predicates on the states of a run\<close>

text \<open>Where an id stands with respect to the three counters. \<open>hold_ok u st i\<close>: id \<open>i\<close>
  has passed the streams before \<open>st\<close> and not yet \<open>st\<close> nor the streams after it;
  \<open>done_ok u i\<close>: it has passed all three.\<close>

fun hold_ok :: "UserData \<Rightarrow> stream \<Rightarrow> nat \<Rightarrow> bool" where
  "hold_ok u Primary i = (id_pri u \<le> i \<and> id_fil u \<le> i \<and> id_oth u \<le> i)"
| "hold_ok u Filelists i = (i < id_pri u \<and> id_fil u \<le> i \<and> id_oth u \<le> i)"
| "hold_ok u Other i = (i < id_pri u \<and> i < id_fil u \<and> id_oth u \<le> i)"

definition done_ok :: "UserData \<Rightarrow> nat \<Rightarrow> bool" where
  "done_ok u i = (i < id_pri u \<and> i < id_fil u \<and> i < id_oth u)"

text \<open>The place of an invocation's own task, read off its program counter: in front of
  a stream, past all three, or out of the invocation's hands (it has returned).\<close>

datatype place = Before stream | Past | Away

fun own_place :: "pc \<Rightarrow> place" where
  "own_place (PC_Write st res pkg) = Before st"
| "own_place (PC_Skip st) = Before st"
| "own_place (PC_Cleanup failed) = (if failed then Before Primary else Past)"
| "own_place PC_Drain = Past"
| "own_place (PC_DrainWrite st b) = Past"
| "own_place PC_Done = Away"
| "own_place p = Before Primary"

fun place_ok :: "UserData \<Rightarrow> nat \<Rightarrow> place \<Rightarrow> bool" where
  "place_ok u i (Before st) = hold_ok u st i"
| "place_ok u i Past = done_ok u i"
| "place_ok u i Away = True"

text \<open>An invocation that has advanced the primary counter and has not yet left the
  drain loop.\<close>

fun post_pri :: "pc \<Rightarrow> bool" where
  "post_pri (PC_Write st res pkg) = (st \<noteq> Primary)"
| "post_pri (PC_Skip st) = (st \<noteq> Primary)"
| "post_pri (PC_Cleanup failed) = (\<not> failed)"
| "post_pri PC_Drain = True"
| "post_pri (PC_DrainWrite st b) = (st \<noteq> Primary)"
| "post_pri p = False"

definition buf_ids :: "UserData \<Rightarrow> nat list" where
  "buf_ids u = map bt_id (buffer u)"

text \<open>The invariant of the ordering protocol.\<close>

definition inv_own :: "PoolTask list \<Rightarrow> sys \<Rightarrow> bool" where
  "inv_own ts s = (\<forall>i<length ts. place_ok (ud s) i (own_place (pcs s i)))"

definition inv_buf :: "PoolTask list \<Rightarrow> sys \<Rightarrow> bool" where
  "inv_buf ts s =
     (\<forall>k \<in> set (buf_ids (ud s)). k < length ts \<and> pcs s k = PC_Done \<and> hold_ok (ud s) Primary k)"

definition inv_drain :: "PoolTask list \<Rightarrow> sys \<Rightarrow> bool" where
  "inv_drain ts s =
     (\<forall>j<length ts. \<forall>st b. pcs s j = PC_DrainWrite st b \<longrightarrow>
        bt_id b < length ts \<and> pcs s (bt_id b) = PC_Done \<and> hold_ok (ud s) st (bt_id b)
        \<and> bt_id b \<notin> set (buf_ids (ud s))
        \<and> (\<forall>j'<length ts. \<forall>st' b'. j' \<noteq> j \<and> pcs s j' = PC_DrainWrite st' b'
               \<longrightarrow> bt_id b' \<noteq> bt_id b))"

definition inv_queue :: "sys \<Rightarrow> bool" where
  "inv_queue s =
     (sorted_wrt (<) (buf_ids (ud s)) \<and> length (buffer (ud s)) \<le> MAX_TASK_BUFFER_LEN)"

definition inv_cov :: "PoolTask list \<Rightarrow> sys \<Rightarrow> bool" where
  "inv_cov ts s =
     (\<forall>i<length ts. pcs s i = PC_Done \<longrightarrow>
        done_ok (ud s) i \<or> i \<in> set (buf_ids (ud s))
        \<or> (\<exists>j<length ts. \<exists>st b. pcs s j = PC_DrainWrite st b \<and> bt_id b = i))"

definition inv_wake :: "PoolTask list \<Rightarrow> sys \<Rightarrow> bool" where
  "inv_wake ts s =
     (id_pri (ud s) \<in> set (buf_ids (ud s)) \<longrightarrow> (\<exists>j<length ts. post_pri (pcs s j)))"

definition inv_static :: "PoolTask list \<Rightarrow> sys \<Rightarrow> bool" where
  "inv_static ts s =
     (package_count (ud s) = length ts \<and> map task_id ts = [0..<length ts]
      \<and> id_oth (ud s) \<le> id_fil (ud s) \<and> id_fil (ud s) \<le> id_pri (ud s)
      \<and> id_pri (ud s) \<le> length ts)"

definition inv_order :: "PoolTask list \<Rightarrow> sys \<Rightarrow> bool" where
  "inv_order ts s =
     (inv_static ts s \<and> inv_own ts s \<and> inv_buf ts s \<and> inv_drain ts s \<and> inv_queue s
      \<and> inv_cov ts s \<and> inv_wake ts s)"

text \<open>The counter of a stream, and what a block of \<^verbatim>\<open>write_pkg\<close> or of the failure path
  does to \<^verbatim>\<open>UserData\<close>: the counter of the stream goes from \<open>i\<close> to \<open>i + 1\<close>, and the
  file and the database of the stream may change.\<close>

fun id_of :: "stream \<Rightarrow> UserData \<Rightarrow> nat" where
  "id_of Primary u = id_pri u"
| "id_of Filelists u = id_fil u"
| "id_of Other u = id_oth u"

fun bump :: "stream \<Rightarrow> nat \<Rightarrow> cr_XmlFile \<Rightarrow> cr_SqliteDb option \<Rightarrow> UserData \<Rightarrow> UserData" where
  "bump Primary i f db u = u\<lparr>id_pri := Suc i, pri_f := f, pri_db := db\<rparr>"
| "bump Filelists i f db u = u\<lparr>id_fil := Suc i, fil_f := f, fil_db := db\<rparr>"
| "bump Other i f db u = u\<lparr>id_oth := Suc i, oth_f := f, oth_db := db\<rparr>"

fun file_of :: "stream \<Rightarrow> UserData \<Rightarrow> cr_XmlFile" where
  "file_of Primary u = pri_f u"
| "file_of Filelists u = fil_f u"
| "file_of Other u = oth_f u"

fun chunk_of :: "stream \<Rightarrow> cr_XmlStruct \<Rightarrow> string" where
  "chunk_of Primary res = primary res"
| "chunk_of Filelists res = filelists res"
| "chunk_of Other res = other res"

fun after_write :: "stream \<Rightarrow> cr_XmlStruct \<Rightarrow> pkg_ptr \<Rightarrow> pc" where
  "after_write Primary res pkg = PC_Write Filelists res pkg"
| "after_write Filelists res pkg = PC_Write Other res pkg"
| "after_write Other res pkg = PC_Cleanup False"

fun after_skip :: "stream \<Rightarrow> pc" where
  "after_skip Primary = PC_Skip Filelists"
| "after_skip Filelists = PC_Skip Other"
| "after_skip Other = PC_Drain"

fun after_drain_write :: "stream \<Rightarrow> BufferedTask \<Rightarrow> pc" where
  "after_drain_write Primary b = PC_DrainWrite Filelists b"
| "after_drain_write Filelists b = PC_DrainWrite Other b"
| "after_drain_write Other b = PC_Drain"

fun db_of :: "stream \<Rightarrow> UserData \<Rightarrow> cr_SqliteDb option" where
  "db_of Primary u = pri_db u"
| "db_of Filelists u = fil_db u"
| "db_of Other u = oth_db u"

text \<open>The places of lines 246-366 before \<^verbatim>\<open>write_pkg\<close>, and the places a transition from
  one of them leads to when the task is not put into the buffer.\<close>

fun is_front :: "pc \<Rightarrow> bool" where
  "is_front PC_Stat = True"
| "is_front (PC_Update sb) = True"
| "is_front (PC_Load old_used md) = True"
| "is_front (PC_Buffer res pkg md) = True"
| "is_front p = False"

fun front_next :: "pc \<Rightarrow> bool" where
  "front_next (PC_Update sb) = True"
| "front_next (PC_Load old_used md) = True"
| "front_next (PC_Buffer res pkg md) = True"
| "front_next (PC_Write st res pkg) = (st = Primary)"
| "front_next (PC_Cleanup failed) = failed"
| "front_next PC_Abort = True"
| "front_next PC_Undefined = True"
| "front_next p = False"

fun next_place :: "stream \<Rightarrow> place" where
  "next_place Primary = Before Filelists"
| "next_place Filelists = Before Other"
| "next_place Other = Past"

text \<open>The stream whose block of \<^verbatim>\<open>write_pkg\<close> an invocation stands in front of.\<close>

fun writes_to :: "pc \<Rightarrow> stream option" where
  "writes_to (PC_Write st res pkg) = Some st"
| "writes_to p = None"

text \<open>The fields of \<^verbatim>\<open>UserData\<close> that no transition changes, and the entry of the old
  metadata under a key.\<close>

definition cfg_eq :: "UserData \<Rightarrow> UserData \<Rightarrow> bool" where
  "cfg_eq u u' =
     (changelog_limit u' = changelog_limit u \<and> ud_location_base u' = ud_location_base u
      \<and> repodir_name_len u' = repodir_name_len u \<and> checksum_type_str u' = checksum_type_str u
      \<and> ud_checksum_type u' = ud_checksum_type u \<and> checksum_cachedir u' = checksum_cachedir u
      \<and> skip_stat u' = skip_stat u \<and> package_count u' = package_count u
      \<and> (old_metadata u' = None \<longleftrightarrow> old_metadata u = None))"

definition md_at :: "UserData \<Rightarrow> string \<Rightarrow> cr_Package option" where
  "md_at u k = (case old_metadata u of None \<Rightarrow> None | Some ht \<Rightarrow> ht k)"

text \<open>The package pointers an invocation holds point to the entry of its own
  filename.\<close>

fun ptr_ok :: "PoolTask \<Rightarrow> pc \<Rightarrow> bool" where
  "ptr_ok t (PC_Load old_used md) = (case md of None \<Rightarrow> True | Some k \<Rightarrow> k = filename t)"
| "ptr_ok t (PC_Buffer res pkg md) = (case pkg of MdEntry k \<Rightarrow> k = filename t | Fresh p \<Rightarrow> True)"
| "ptr_ok t p = True"

text \<open>The local \<^verbatim>\<open>stat_buf\<close> at line 259: written, with what \<^verbatim>\<open>stat\<close> returned for the
  file, exactly when old metadata are configured and \<^verbatim>\<open>skip_stat\<close> is off.\<close>

definition stat_buf_ok :: "ext \<Rightarrow> UserData \<Rightarrow> PoolTask \<Rightarrow> stat option \<Rightarrow> bool" where
  "stat_buf_ok X u t sb =
     (case sb of
        None \<Rightarrow> old_metadata u = None \<or> skip_stat u
      | Some x \<Rightarrow> old_metadata u \<noteq> None \<and> \<not> skip_stat u \<and> stat_file X (full_path t) = Inr x)"

definition inv_cfg :: "ext \<Rightarrow> PoolTask list \<Rightarrow> UserData \<Rightarrow> sys \<Rightarrow> bool" where
  "inv_cfg X ts u0 s =
     (cfg_eq u0 (ud s)
      \<and> (\<forall>i<length ts. ptr_ok (ts ! i) (pcs s i) \<and> pcs s i \<noteq> PC_Undefined
            \<and> (\<forall>sb. pcs s i = PC_Update sb \<longrightarrow> stat_buf_ok X u0 (ts ! i) sb)))"

text \<open>What a transition of the invocation that works on the file with key \<open>k\<close> may do to
  the configuration and to the old metadata: only the entry under \<open>k\<close> may change, and it
  stays an entry.\<close>

definition md_frame :: "string \<Rightarrow> UserData \<Rightarrow> UserData \<Rightarrow> bool" where
  "md_frame k u u' =
     (cfg_eq u u' \<and> (\<forall>k'. k' \<noteq> k \<longrightarrow> md_at u' k' = md_at u k')
      \<and> (md_at u' k = None \<longleftrightarrow> md_at u k = None))"

text \<open>No invocation of the run can move.\<close>

definition no_move :: "ext \<Rightarrow> PoolTask list \<Rightarrow> nat \<Rightarrow> sys \<Rightarrow> bool" where
  "no_move X ts pool s =
     list_all (\<lambda>i. Option.is_none (sched_step X ts pool i s)) [0..<length ts]"

section \<open>Properties of the worker's sequential code\<close>

lemma stat_calls_g_log [simp]: "stat_calls (g_log l m w) = stat_calls w"
  by (simp add: g_log_def)

lemma step_load_reuse:
  assumes "deref u (MdEntry k) = Some m"
  shows "step_load X t True (Some k) (u, w) =
     (case cr_xml_dump X m of
        Inl e \<Rightarrow> Some (u, g_log G_CRITICAL (''Cannot dump XML for '' @ name m @ '' (''
                                              @ pkgId m @ ''): '' @ e) w, PC_Cleanup True)
      | Inr res \<Rightarrow> Some (u, w, PC_Buffer res (MdEntry k) (Some k)))"
  using assms by simp

lemma step_load_fresh_enabled: "step_load X t False md (u, w) \<noteq> None"
  by (simp split: prod.splits option.splits sum.splits)

lemma step_load_fresh_ok:
  assumes "load_rpm X (full_path t) (ud_checksum_type u) (checksum_cachedir u)
             (task_location_href u t) (ud_location_base u) (changelog_limit u) None w
           = ((Some p, r), w')"
    and "cr_xml_dump X p = Inr res"
  shows "step_load X t False md (u, w) = Some (u, w', PC_Buffer res (Fresh p) md)"
  using assms by simp

lemma step_load_fresh_conv:
  assumes "step_load X t False md (u, w) = Some (u3, w3, PC_Buffer res pkg md')"
  shows "\<exists>p r w'. pkg = Fresh p
           \<and> load_rpm X (full_path t) (ud_checksum_type u) (checksum_cachedir u)
                (task_location_href u t) (ud_location_base u) (changelog_limit u) None w
              = ((Some p, r), w')"
  using assms by (auto split: prod.splits option.splits sum.splits)

lemma deref_set_location:
  assumes "old_metadata u = Some ht" "ht k = Some md"
  shows "deref (set_location k h b u) (MdEntry k)
         = Some (md\<lparr>location_href := h, location_base := b\<rparr>)"
  using assms by (simp add: deref_def set_location_def)

lemma step_update_skip_stat:
  assumes "old_metadata u = Some ht" "ht (filename t) = Some md" "skip_stat u"
  shows "step_update X t sb (u, w) =
     Some (set_location (filename t) (task_location_href u t) (ud_location_base u) u,
           g_log G_DEBUG (''CACHE HIT '' @ filename t) w, PC_Load True (Some (filename t)))"
  using assms by (simp add: Let_def)

lemma step_update_compare:
  assumes "old_metadata u = Some ht" "ht (filename t) = Some md" "\<not> skip_stat u"
  shows "step_update X t (Some sb) (u, w) =
     (if st_mtime sb = time_file md \<and> st_size sb = size_package md
         \<and> checksum_type_str u = checksum_type md
      then Some (set_location (filename t) (task_location_href u t) (ud_location_base u) u,
                 g_log G_DEBUG (''CACHE HIT '' @ filename t) w, PC_Load True (Some (filename t)))
      else Some (u, g_log G_DEBUG (filename t @ '' metadata are obsolete -> generating new'')
                      (g_log G_DEBUG (''CACHE HIT '' @ filename t) w),
                 PC_Load False (Some (filename t))))"
  using assms by (simp add: Let_def)

lemma step_stat_skip:
  assumes "skip_stat u \<or> old_metadata u = None"
  shows "step_stat X t (u, w) = Some (u, w, PC_Update None)"
  using assms by auto

lemma step_stat_done:
  assumes "\<not> skip_stat u" "old_metadata u \<noteq> None"
  shows "step_stat X t (u, w) =
     (case stat_file X (full_path t) of
        Inl errno \<Rightarrow> Some (u, g_log G_CRITICAL (''Stat() on '' @ full_path t @ '': '' @ errno)
                              (w\<lparr>stat_calls := stat_calls w @ [full_path t]\<rparr>), PC_Cleanup True)
      | Inr sb \<Rightarrow> Some (u, w\<lparr>stat_calls := stat_calls w @ [full_path t]\<rparr>, PC_Update (Some sb)))"
  using assms by (simp add: do_stat_def split: sum.splits)


lemma reuse_tail:
  assumes "old_metadata u = Some ht" "ht k = Some md"
  shows "(\<forall>u3 w3 res pkg md'.
            step_load X t True (Some k) (set_location k h b u, w2)
              = Some (u3, w3, PC_Buffer res pkg md')
            \<longrightarrow> pkg = MdEntry k \<and> stat_calls w3 = stat_calls w2)
       \<and> step_load X t True (Some k) (set_location k h b u, w2) \<noteq> None
       \<and> (\<forall>res. cr_xml_dump X (md\<lparr>location_href := h, location_base := b\<rparr>) = Inr res
             \<longrightarrow> step_load X t True (Some k) (set_location k h b u, w2)
                   = Some (set_location k h b u, w2, PC_Buffer res (MdEntry k) (Some k)))"
  unfolding step_load_reuse[OF deref_set_location[OF assms]]
  by (cases "cr_xml_dump X (md\<lparr>location_href := h, location_base := b\<rparr>)") simp_all

lemma fresh_tail:
  "(\<forall>u3 w3 res pkg md'.
       step_load X t False mk (u, w2) = Some (u3, w3, PC_Buffer res pkg md')
       \<longrightarrow> (\<exists>p r w'. pkg = Fresh p
              \<and> load_rpm X (full_path t) (ud_checksum_type u) (checksum_cachedir u)
                   (task_location_href u t) (ud_location_base u) (changelog_limit u) None w2
                 = ((Some p, r), w')))
   \<and> step_load X t False mk (u, w2) \<noteq> None
   \<and> (\<forall>p r w' res.
         load_rpm X (full_path t) (ud_checksum_type u) (checksum_cachedir u)
           (task_location_href u t) (ud_location_base u) (changelog_limit u) None w2
         = ((Some p, r), w')
         \<and> cr_xml_dump X p = Inr res
         \<longrightarrow> step_load X t False mk (u, w2) = Some (u, w', PC_Buffer res (Fresh p) mk))"
  using step_load_fresh_conv[of X t mk u w2] step_load_fresh_enabled[of X t mk u w2]
    step_load_fresh_ok[of X t u w2 _ _ _ _ mk]
  by blast

text \<open>Claim C5. When the old metadata hold an entry for the task's filename and the
  worker gets past its \<^verbatim>\<open>stat\<close> step, the entry is reused (\<^verbatim>\<open>old_used\<close> is true) exactly
  when \<^verbatim>\<open>skip_stat\<close> is set, or the entry's \<^verbatim>\<open>time_file\<close> is the file's mtime, its
  \<^verbatim>\<open>size_package\<close> the file's size and its \<^verbatim>\<open>checksum_type\<close> the configured checksum
  name. With \<^verbatim>\<open>skip_stat\<close> no \<^verbatim>\<open>stat\<close> is called. The next step (lines 291-324) always
  returns. For a reused entry it calls no \<^verbatim>\<open>stat\<close> and, when the XML dump of the entry
  (with its two location fields overwritten) succeeds, hands on that XML together with
  the pointer into the old metadata. Otherwise it hands on exactly the package that
  \<^verbatim>\<open>load_rpm\<close> parsed from the file, whenever \<^verbatim>\<open>load_rpm\<close> returns one and its XML dump
  succeeds; and whatever package is handed on is of one of these two kinds.\<close>

theorem C5_cache_reuse:
  assumes md: "old_metadata u = Some ht" "ht (filename t) = Some md"
      and st: "step_stat X t (u, w) = Some (u1, w1, PC_Update stat_buf)"
  shows "\<exists>u2 w2 old_used.
           step_update X t stat_buf (u1, w1) = Some (u2, w2, PC_Load old_used (Some (filename t)))
         \<and> (old_used \<longleftrightarrow>
              (skip_stat u
               \<or> (\<exists>sb. stat_file X (full_path t) = Inr sb
                       \<and> time_file md = st_mtime sb
                       \<and> size_package md = st_size sb
                       \<and> checksum_type md = checksum_type_str u)))
         \<and> (skip_stat u \<longrightarrow> stat_calls w2 = stat_calls w)
         \<and> (\<forall>u3 w3 res pkg md'.
               step_load X t old_used (Some (filename t)) (u2, w2)
                 = Some (u3, w3, PC_Buffer res pkg md')
               \<longrightarrow> (if old_used
                    then pkg = MdEntry (filename t) \<and> stat_calls w3 = stat_calls w2
                    else \<exists>p r w'. pkg = Fresh p
                           \<and> load_rpm X (full_path t) (ud_checksum_type u) (checksum_cachedir u)
                                (task_location_href u t) (ud_location_base u) (changelog_limit u)
                                None w2 = ((Some p, r), w')))
         \<and> step_load X t old_used (Some (filename t)) (u2, w2) \<noteq> None
         \<and> (old_used \<longrightarrow>
              (\<forall>res. cr_xml_dump X (md\<lparr>location_href := task_location_href u t,
                                         location_base := ud_location_base u\<rparr>) = Inr res
                 \<longrightarrow> step_load X t old_used (Some (filename t)) (u2, w2)
                       = Some (u2, w2, PC_Buffer res (MdEntry (filename t)) (Some (filename t)))))
         \<and> (\<not> old_used \<longrightarrow>
              (\<forall>p r w' res.
                 load_rpm X (full_path t) (ud_checksum_type u) (checksum_cachedir u)
                   (task_location_href u t) (ud_location_base u) (changelog_limit u)
                   None w2 = ((Some p, r), w')
                 \<and> cr_xml_dump X p = Inr res
                 \<longrightarrow> step_load X t old_used (Some (filename t)) (u2, w2)
                       = Some (u2, w', PC_Buffer res (Fresh p) (Some (filename t)))))"
proof -
  let ?k = "filename t"
  let ?ur = "set_location ?k (task_location_href u t) (ud_location_base u) u"
  let ?hit = "g_log G_DEBUG (''CACHE HIT '' @ ?k)"
  note RT = reuse_tail[OF md, of X t "task_location_href u t" "ud_location_base u"]
  note FT = fresh_tail[of X t "Some ?k" u]
  show ?thesis
  proof (cases "skip_stat u")
    case True
    from st step_stat_skip[of u X t w] True have e: "u1 = u" "w1 = w" by simp_all
    have up: "step_update X t stat_buf (u1, w1) = Some (?ur, ?hit w, PC_Load True (Some ?k))"
      unfolding e by (rule step_update_skip_stat[OF md True])
    show ?thesis
      apply (rule exI[of _ ?ur], rule exI[of _ "?hit w"], rule exI[of _ True])
      using up True RT[of "?hit w"] by simp
  next
    case False
    from md have "old_metadata u \<noteq> None" by simp
    from st step_stat_done[OF False this, of X t w] obtain sb where
      sb: "stat_file X (full_path t) = Inr sb" "stat_buf = Some sb" "u1 = u"
        "w1 = w\<lparr>stat_calls := stat_calls w @ [full_path t]\<rparr>"
      by (cases "stat_file X (full_path t)") simp_all
    note cmp = step_update_compare[OF md False, of X sb w1]
    show ?thesis
    proof (cases "st_mtime sb = time_file md \<and> st_size sb = size_package md
                  \<and> checksum_type_str u = checksum_type md")
      case T: True
      with cmp sb have up: "step_update X t stat_buf (u1, w1)
          = Some (?ur, ?hit w1, PC_Load True (Some ?k))"
        by simp
      show ?thesis
        apply (rule exI[of _ ?ur], rule exI[of _ "?hit w1"], rule exI[of _ True])
        using up False T sb(1) RT[of "?hit w1"] by simp
    next
      case F: False
      let ?w2 = "g_log G_DEBUG (?k @ '' metadata are obsolete -> generating new'') (?hit w1)"
      from cmp sb F have up: "step_update X t stat_buf (u1, w1)
          = Some (u, ?w2, PC_Load False (Some ?k))"
        by simp
      from F sb(1) False have no: "\<not> (skip_stat u
               \<or> (\<exists>sb. stat_file X (full_path t) = Inr sb
                       \<and> time_file md = st_mtime sb
                       \<and> size_package md = st_size sb
                       \<and> checksum_type md = checksum_type_str u))"
        by auto
      show ?thesis
        apply (rule exI[of _ u], rule exI[of _ ?w2], rule exI[of _ False])
        using up no False FT[of ?w2] by simp
    qed
  qed
qed


theorem C5_cache_reuse_witness:
  "old_metadata ex_ud = Some [''a.rpm'' \<mapsto> ex_pkg ''a'']
   \<and> [''a.rpm'' \<mapsto> ex_pkg ''a''] (filename (ex_task 0 ''a.rpm'')) = Some (ex_pkg ''a'')
   \<and> step_stat ex_ext (ex_task 0 ''a.rpm'') (ex_ud, empty_world)
       = Some (ex_ud, \<lparr>log_msgs = [], stat_calls = [''/r/a.rpm'']\<rparr>,
               PC_Update (Some \<lparr>st_mtime = 100, st_size = 10\<rparr>))
   \<and> (\<exists>u2 w2. step_update ex_ext (ex_task 0 ''a.rpm'') (Some \<lparr>st_mtime = 100, st_size = 10\<rparr>)
                 (ex_ud, \<lparr>log_msgs = [], stat_calls = [''/r/a.rpm'']\<rparr>)
               = Some (u2, w2, PC_Load True (Some ''a.rpm''))
        \<and> step_load ex_ext (ex_task 0 ''a.rpm'') True (Some ''a.rpm'') (u2, w2)
            = Some (u2, w2, PC_Buffer (ex_dump ((ex_pkg ''a'')\<lparr>location_href := ''a.rpm''\<rparr>))
                              (MdEntry ''a.rpm'') (Some ''a.rpm'')))"
proof -
  let ?t = "ex_task 0 ''a.rpm''"
  have h1: "old_metadata ex_ud = Some [''a.rpm'' \<mapsto> ex_pkg ''a'']"
    by (simp add: ex_ud_def)
  have h2: "[''a.rpm'' \<mapsto> ex_pkg ''a''] (filename ?t) = Some (ex_pkg ''a'')"
    by (simp add: ex_task_def)
  have h3: "step_stat ex_ext ?t (ex_ud, empty_world)
       = Some (ex_ud, \<lparr>log_msgs = [], stat_calls = [''/r/a.rpm'']\<rparr>,
               PC_Update (Some \<lparr>st_mtime = 100, st_size = 10\<rparr>))"
    by (simp add: ex_ud_def ex_ext_def ex_task_def do_stat_def empty_world_def)
  have fresh: "stat_file ex_ext (full_path ?t) = Inr \<lparr>st_mtime = 100, st_size = 10\<rparr>"
    "time_file (ex_pkg ''a'') = 100" "size_package (ex_pkg ''a'') = 10"
    "checksum_type (ex_pkg ''a'') = checksum_type_str ex_ud" "filename ?t = ''a.rpm''"
    by (simp_all add: ex_ext_def ex_task_def ex_pkg_def ex_ud_def)
  have dump: "cr_xml_dump ex_ext ((ex_pkg ''a'')\<lparr>location_href := task_location_href ex_ud ?t,
                                       location_base := ud_location_base ex_ud\<rparr>)
              = Inr (ex_dump ((ex_pkg ''a'')\<lparr>location_href := ''a.rpm''\<rparr>))"
    by (simp add: ex_ext_def ex_task_def ex_pkg_def ex_ud_def task_location_href_def ex_dump_def)
  from C5_cache_reuse [OF h1 h2 h3] obtain u2 w2 old_used where
    a: "step_update ex_ext ?t (Some \<lparr>st_mtime = 100, st_size = 10\<rparr>)
          (ex_ud, \<lparr>log_msgs = [], stat_calls = [''/r/a.rpm'']\<rparr>)
        = Some (u2, w2, PC_Load old_used (Some (filename ?t)))"
    and b: "old_used \<longleftrightarrow>
              (skip_stat ex_ud
               \<or> (\<exists>sb. stat_file ex_ext (full_path ?t) = Inr sb
                       \<and> time_file (ex_pkg ''a'') = st_mtime sb
                       \<and> size_package (ex_pkg ''a'') = st_size sb
                       \<and> checksum_type (ex_pkg ''a'') = checksum_type_str ex_ud))"
    and c: "old_used \<longrightarrow>
              (\<forall>res. cr_xml_dump ex_ext ((ex_pkg ''a'')\<lparr>location_href := task_location_href ex_ud ?t,
                                         location_base := ud_location_base ex_ud\<rparr>) = Inr res
                 \<longrightarrow> step_load ex_ext ?t old_used (Some (filename ?t)) (u2, w2)
                       = Some (u2, w2, PC_Buffer res (MdEntry (filename ?t)) (Some (filename ?t))))"
    by blast
  from b fresh have ou: "old_used" by simp
  with c dump fresh(5) have "step_load ex_ext ?t True (Some ''a.rpm'') (u2, w2)
            = Some (u2, w2, PC_Buffer (ex_dump ((ex_pkg ''a'')\<lparr>location_href := ''a.rpm''\<rparr>))
                              (MdEntry ''a.rpm'') (Some ''a.rpm''))"
    by simp
  with a ou fresh(5) h1 h2 h3 show ?thesis by auto
qed

text \<open>Claim C6, the part of it that the code breaks. \<^verbatim>\<open>write_pkg\<close> is run for id 0 on
  three attached databases whose every insert fails. All three counters are advanced, and
  the failures of the primary and the filelists database are logged as critical; the
  failure of the other database is not logged at all.\<close>

theorem C6_other_db_error_not_logged:
  "map_option (\<lambda>(u, w). (id_pri u, id_fil u, id_oth u, log_msgs w))
     (write_pkg ex_ext_dbfail 0 ex_res (Fresh (ex_pkg ''a'')) (ex_ud_db, empty_world))
   = Some (1, 1, 1,
       [(G_CRITICAL, ''Cannot add record of a (0a) to primary db: disk full''),
        (G_CRITICAL, ''Cannot add record of a (0a) to filelists db: disk full'')])"
  by (simp add: write_pkg_def ex_ext_dbfail_def ex_ud_db_def ex_ud_def ex_ext_def ex_res_def
      ex_pkg_def empty_world_def cr_xmlfile_add_chunk_def cr_db_add_pkg_def critical_if_error_def
      g_log_def deref_def Let_def)

text \<open>Claim C7 as stated fails: the worker below has called \<^verbatim>\<open>stat\<close> on the file (old
  metadata are configured, \<^verbatim>\<open>skip_stat\<close> is off), finds no entry to reuse, and the
  extractor calls \<^verbatim>\<open>stat\<close> on the same file again: it was not given the worker's
  \<^verbatim>\<open>stat_buf\<close>.\<close>

theorem C7_counterexample:
  "step_stat ex_ext (ex_task 0 ''b.rpm'') (ex_ud, empty_world)
     = Some (ex_ud, \<lparr>log_msgs = [], stat_calls = [''/r/b.rpm'']\<rparr>,
             PC_Update (Some \<lparr>st_mtime = 100, st_size = 10\<rparr>))
   \<and> step_update ex_ext (ex_task 0 ''b.rpm'') (Some \<lparr>st_mtime = 100, st_size = 10\<rparr>)
        (ex_ud, \<lparr>log_msgs = [], stat_calls = [''/r/b.rpm'']\<rparr>)
     = Some (ex_ud, \<lparr>log_msgs = [], stat_calls = [''/r/b.rpm'']\<rparr>, PC_Load False None)
   \<and> map_option (\<lambda>(u, w, p). stat_calls w)
        (step_load ex_ext (ex_task 0 ''b.rpm'') False None
           (ex_ud, \<lparr>log_msgs = [], stat_calls = [''/r/b.rpm'']\<rparr>))
     = Some [''/r/b.rpm'', ''/r/b.rpm'']"
  by (simp add: ex_ud_def ex_ext_def ex_task_def do_stat_def empty_world_def load_rpm_def
       get_checksum_def Let_def)

text \<open>Claim C7, amended. The extractor takes mtime and size from the \<^verbatim>\<open>stat\<close> it is
  given and then calls no \<^verbatim>\<open>stat\<close>; given none, it calls \<^verbatim>\<open>stat\<close> on the file itself
  once the package has been parsed, and takes mtime and size from that. A file that
  cannot be parsed makes the extractor fail before any \<^verbatim>\<open>stat\<close>, whatever it was
  given. The worker always gives the extractor no \<^verbatim>\<open>stat\<close>: its step of lines 291-324
  always returns, calls \<^verbatim>\<open>stat\<close> on the file once more whenever the package can be
  parsed (whatever \<^verbatim>\<open>skip_stat\<close> says and whatever the worker's own \<^verbatim>\<open>stat\<close> returned),
  and goes to \<^verbatim>\<open>task_cleanup\<close> with a warning and without any \<^verbatim>\<open>stat\<close> when the package
  cannot be parsed.\<close>

theorem C7_extractor_stats_itself:
  "(\<forall>sb r w'. load_rpm X f c cd href base n (Some sb) w = (r, w') \<longrightarrow>
      stat_calls w' = stat_calls w
      \<and> (\<forall>p e. r = (Some p, e) \<longrightarrow> time_file p = st_mtime sb \<and> size_package p = st_size sb))
   \<and> (\<forall>r w' p0. load_rpm X f c cd href base n None w = (r, w')
        \<and> cr_package_from_rpm_base X f n = Inr p0 \<longrightarrow>
      stat_calls w' = stat_calls w @ [f]
      \<and> (\<forall>p e. r = (Some p, e) \<longrightarrow>
            (\<exists>sb. stat_file X f = Inr sb \<and> time_file p = st_mtime sb \<and> size_package p = st_size sb)))
   \<and> (\<forall>t md u u' w' pc' p0. step_load X t False md (u, w) = Some (u', w', pc')
        \<and> cr_package_from_rpm_base X (full_path t) (changelog_limit u) = Inr p0 \<longrightarrow>
      stat_calls w' = stat_calls w @ [full_path t])
   \<and> (\<forall>e sbo. cr_package_from_rpm_base X f n = Inl e \<longrightarrow>
        load_rpm X f c cd href base n sbo w = ((None, Some e), w))
   \<and> (\<forall>t md u e. cr_package_from_rpm_base X (full_path t) (changelog_limit u) = Inl e \<longrightarrow>
        step_load X t False md (u, w)
          = Some (u, g_log G_WARNING (''Cannot read package: '' @ full_path t @ '': '' @ e) w,
                  PC_Cleanup True))
   \<and> (\<forall>t md u. step_load X t False md (u, w) \<noteq> None)"
proof -
  have a: "\<forall>sb r w'. load_rpm X f c cd href base n (Some sb) w = (r, w') \<longrightarrow>
      stat_calls w' = stat_calls w
      \<and> (\<forall>p e. r = (Some p, e) \<longrightarrow> time_file p = st_mtime sb \<and> size_package p = st_size sb)"
    by (auto simp: load_rpm_def Let_def get_checksum_def do_stat_def
           split: sum.splits option.splits prod.splits)
  have b: "\<forall>r w' p0. load_rpm X f c cd href base n None w = (r, w')
        \<and> cr_package_from_rpm_base X f n = Inr p0 \<longrightarrow>
      stat_calls w' = stat_calls w @ [f]
      \<and> (\<forall>p e. r = (Some p, e) \<longrightarrow>
            (\<exists>sb. stat_file X f = Inr sb \<and> time_file p = st_mtime sb \<and> size_package p = st_size sb))"
    by (auto simp: load_rpm_def Let_def get_checksum_def do_stat_def
           split: sum.splits option.splits prod.splits)
  have c: "\<forall>t md u u' w' pc' p0. step_load X t False md (u, w) = Some (u', w', pc')
        \<and> cr_package_from_rpm_base X (full_path t) (changelog_limit u) = Inr p0 \<longrightarrow>
      stat_calls w' = stat_calls w @ [full_path t]"
    by (auto simp: load_rpm_def Let_def get_checksum_def do_stat_def
           split: sum.splits option.splits prod.splits)
  have d: "\<forall>e sbo. cr_package_from_rpm_base X f n = Inl e \<longrightarrow>
        load_rpm X f c cd href base n sbo w = ((None, Some e), w)"
    by (simp add: load_rpm_def)
  have e: "\<forall>t md u e. cr_package_from_rpm_base X (full_path t) (changelog_limit u) = Inl e \<longrightarrow>
        step_load X t False md (u, w)
          = Some (u, g_log G_WARNING (''Cannot read package: '' @ full_path t @ '': '' @ e) w,
                  PC_Cleanup True)"
    by (simp add: load_rpm_def)
  have f: "\<forall>t md u. step_load X t False md (u, w) \<noteq> None"
    using step_load_fresh_enabled by blast
  from a b c d e f show ?thesis by blast
qed

theorem C7_extractor_stats_itself_witness:
  "step_load ex_ext (ex_task 0 ''b.rpm'') False None (ex_ud, empty_world)
     = Some (ex_ud, \<lparr>log_msgs = [], stat_calls = [''/r/b.rpm'']\<rparr>,
             PC_Buffer (ex_dump ((ex_pkg ''/r/b.rpm'')\<lparr>location_href := ''b.rpm'', pkgId := ''c0ffee'',
                                   rpm_header_start := 96, rpm_header_end := 1000\<rparr>))
               (Fresh ((ex_pkg ''/r/b.rpm'')\<lparr>location_href := ''b.rpm'', pkgId := ''c0ffee'',
                                   rpm_header_start := 96, rpm_header_end := 1000\<rparr>)) None)
   \<and> cr_package_from_rpm_base ex_ext (full_path (ex_task 0 ''b.rpm'')) (changelog_limit ex_ud)
       = Inr (ex_pkg ''/r/b.rpm'')
   \<and> stat_calls \<lparr>log_msgs = [], stat_calls = [''/r/b.rpm'']\<rparr>
       = stat_calls empty_world @ [full_path (ex_task 0 ''b.rpm'')]
   \<and> cr_package_from_rpm_base ex_ext (full_path (ex_task 0 ''bad.rpm'')) (changelog_limit ex_ud)
       = Inl ''bad header''
   \<and> step_load ex_ext (ex_task 0 ''bad.rpm'') False None (ex_ud, empty_world)
       = Some (ex_ud, g_log G_WARNING (''Cannot read package: /r/bad.rpm: bad header'') empty_world,
               PC_Cleanup True)"
proof -
  have h: "step_load ex_ext (ex_task 0 ''b.rpm'') False None (ex_ud, empty_world)
     = Some (ex_ud, \<lparr>log_msgs = [], stat_calls = [''/r/b.rpm'']\<rparr>,
             PC_Buffer (ex_dump ((ex_pkg ''/r/b.rpm'')\<lparr>location_href := ''b.rpm'', pkgId := ''c0ffee'',
                                   rpm_header_start := 96, rpm_header_end := 1000\<rparr>))
               (Fresh ((ex_pkg ''/r/b.rpm'')\<lparr>location_href := ''b.rpm'', pkgId := ''c0ffee'',
                                   rpm_header_start := 96, rpm_header_end := 1000\<rparr>)) None)
   \<and> cr_package_from_rpm_base ex_ext (full_path (ex_task 0 ''b.rpm'')) (changelog_limit ex_ud)
       = Inr (ex_pkg ''/r/b.rpm'')"
    by (simp add: ex_ud_def ex_ext_def ex_task_def do_stat_def empty_world_def load_rpm_def
          get_checksum_def Let_def task_location_href_def ex_pkg_def)
  have bad: "cr_package_from_rpm_base ex_ext (full_path (ex_task 0 ''bad.rpm''))
               (changelog_limit ex_ud) = Inl ''bad header''"
    by (simp add: ex_ext_def ex_task_def ex_ud_def)
  note T = C7_extractor_stats_itself [of ex_ext _ _ _ _ _ _ empty_world]
  from T [THEN conjunct2, THEN conjunct2, THEN conjunct1, rule_format, OF h]
  have 1: "stat_calls \<lparr>log_msgs = [], stat_calls = [''/r/b.rpm'']\<rparr>
       = stat_calls empty_world @ [full_path (ex_task 0 ''b.rpm'')]" .
  from T [THEN conjunct2, THEN conjunct2, THEN conjunct2, THEN conjunct2, THEN conjunct1,
          rule_format, OF bad]
  have 2: "step_load ex_ext (ex_task 0 ''bad.rpm'') False None (ex_ud, empty_world)
       = Some (ex_ud, g_log G_WARNING (''Cannot read package: /r/bad.rpm: bad header'') empty_world,
               PC_Cleanup True)"
    by (simp add: ex_task_def)
  from h bad 1 2 show ?thesis by blast
qed

section \<open>The ordering protocol: an invariant of every run\<close>

subsection \<open>The queue\<close>

lemma set_insert_sorted [simp]:
  "set (g_queue_insert_sorted xs d f) = insert d (set xs)"
  by (induction xs) auto

lemma length_insert_sorted [simp]:
  "length (g_queue_insert_sorted xs d f) = Suc (length xs)"
  by (induction xs) auto

lemma sorted_insert_sorted:
  "sorted_wrt (<) (map bt_id xs) \<Longrightarrow> bt_id d \<notin> bt_id ` set xs \<Longrightarrow>
   sorted_wrt (<) (map bt_id (g_queue_insert_sorted xs d buf_task_sort_func))"
proof (induction xs)
  case Nil
  then show ?case by simp
next
  case (Cons x xs)
  show ?case
  proof (cases "bt_id x < bt_id d")
    case True
    with Cons show ?thesis
      by (auto simp: buf_task_sort_func_def)
  next
    case False
    with Cons.prems have "bt_id d < bt_id x" by auto
    with Cons.prems False show ?thesis
      by (auto simp: buf_task_sort_func_def intro: less_trans)
  qed
qed

subsection \<open>What one block does\<close>


lemma write_stream_Some:
  assumes "write_stream st X i res pkg (u, w) = Some (u', w')"
  shows "id_of st u = i \<and> u' = bump st i (fst (cr_xmlfile_add_chunk X st (file_of st u) (chunk_of st res))) (db_of st u') u"
  using assms
  by (cases st; cases u)
     (auto simp: write_stream_def Let_def split: if_splits option.splits prod.splits)

lemma skip_stream_Some:
  assumes "skip_stream st i u = Some u'"
  shows "id_of st u = i \<and> u' = bump st i (file_of st u) (db_of st u) u"
  using assms
  by (cases st; cases u) (auto simp: skip_stream_def skip_pri_def skip_fil_def skip_oth_def split: if_splits)

lemma thread_step_Write:
  "thread_step X t (u, w, PC_Write st res pkg) =
     map_option (\<lambda>(u1, w1). (u1, w1, after_write st res pkg)) (write_stream st X (task_id t) res pkg (u, w))"
  by (cases st) (simp_all add: write_stream_def)

lemma thread_step_Skip:
  "thread_step X t (u, w, PC_Skip st) =
     map_option (\<lambda>u1. (u1, w, after_skip st)) (skip_stream st (task_id t) u)"
  by (cases st) (simp_all add: skip_stream_def)

lemma thread_step_DrainWrite:
  "thread_step X t (u, w, PC_DrainWrite st b) =
     map_option (\<lambda>(u1, w1). (u1, w1, after_drain_write st b))
       (write_stream st X (bt_id b) (bt_res b) (bt_pkg b) (u, w))"
  by (cases st) (simp_all add: write_stream_def)


subsection \<open>The transitions of a run, by cases\<close>

lemma upd_same: "\<exists>m. u = u\<lparr>old_metadata := m\<rparr>"
  by (rule exI[of _ "old_metadata u"]) simp

lemma set_location_upd: "\<exists>m. set_location k h b u = u\<lparr>old_metadata := m\<rparr>"
proof (cases "old_metadata u")
  case None
  then have "set_location k h b u = u" by (simp add: set_location_def)
  with upd_same[of u] show ?thesis by metis
next
  case (Some ht)
  show ?thesis
  proof (cases "ht k")
    case None
    with Some have "set_location k h b u = u" by (simp add: set_location_def)
    with upd_same[of u] show ?thesis by metis
  next
    case (Some md)
    with \<open>old_metadata u = Some ht\<close> have "set_location k h b u =
       u\<lparr>old_metadata := Some (ht(k \<mapsto> md\<lparr>location_href := h, location_base := b\<rparr>))\<rparr>"
      by (simp add: set_location_def)
    then show ?thesis by (rule exI)
  qed
qed

lemma set_location_href_upd:
  assumes "set_location_href p h u = Some u1"
  shows "\<exists>m. u1 = u\<lparr>old_metadata := m\<rparr>"
proof (cases p)
  case (MdEntry k)
  with assms have "\<exists>b. u1 = set_location k h b u"
    by (auto simp: set_location_href_def split: option.splits)
  then obtain b where "u1 = set_location k h b u" by blast
  with set_location_upd[of k h b u] show ?thesis by metis
next
  case (Fresh x)
  with assms have "u1 = u" by (simp add: set_location_href_def)
  with upd_same[of u] show ?thesis by metis
qed

lemma step_stat_shape:
  "step_stat X t (u, w) = Some (u', w', p') \<Longrightarrow> u' = u \<and> front_next p'"
  by (auto simp: do_stat_def split: if_splits sum.splits)

lemma step_update_shape:
  assumes "step_update X t sb (u, w) = Some (u', w', p')"
  shows "(\<exists>m. u' = u\<lparr>old_metadata := m\<rparr>) \<and> front_next p'"
proof -
  from assms have "(u' = u \<or> u' = set_location (filename t) (task_location_href u t)
      (ud_location_base u) u) \<and> front_next p'"
    by (auto simp: Let_def split: if_splits option.splits)
  with set_location_upd[of "filename t" "task_location_href u t" "ud_location_base u" u]
    upd_same[of u] show ?thesis by metis
qed

lemma step_load_shape:
  "step_load X t ou md (u, w) = Some (u', w', p') \<Longrightarrow> u' = u \<and> front_next p'"
  by (auto simp: Let_def split: if_splits option.splits sum.splits prod.splits)


lemma step_buffer_defer:
  assumes "step_buffer X t res pkg md (u, w) = Some (u', w', p')"
    and "length (buffer u) < MAX_TASK_BUFFER_LEN \<and> id_pri u \<noteq> task_id t
         \<and> package_count u > task_id t + 1"
  shows "\<exists>m b. bt_id b = task_id t \<and> bt_res b = res \<and> bt_pkg b = pkg \<and> p' = PC_Done \<and> w' = w
           \<and> u' = u\<lparr>old_metadata := m,
                       buffer := g_queue_insert_sorted (buffer u) b buf_task_sort_func\<rparr>"
proof -
  define b where "b = \<lparr>bt_id = task_id t, bt_res = res, bt_pkg = pkg,
                         bt_location_href =
                           (if pkg_is_md pkg md then Some (task_location_href u t) else None),
                         bt_pkg_from_md = pkg_is_md pkg md\<rparr>"
  have eq: "step_buffer X t res pkg md (u, w) =
      (case (if pkg_is_md pkg md then set_location_href pkg (task_location_href u t) u
             else Some u) of
         None \<Rightarrow> None
       | Some u1 \<Rightarrow>
           Some (u1\<lparr>buffer := g_queue_insert_sorted (buffer u1) b buf_task_sort_func\<rparr>,
                 w, PC_Done))"
    unfolding b_def step_buffer.simps Let_def using assms(2)
    by (simp only: if_True simp_thms not_False_eq_True)
  from assms(1) obtain u1 where
    u1: "(if pkg_is_md pkg md then set_location_href pkg (task_location_href u t) u
          else Some u) = Some u1"
    and u': "u' = u1\<lparr>buffer := g_queue_insert_sorted (buffer u1) b buf_task_sort_func\<rparr>"
    and p': "p' = PC_Done" "w' = w"
    unfolding eq by (cases "if pkg_is_md pkg md then set_location_href pkg (task_location_href u t) u
          else Some u") simp_all
  have "\<exists>m. u1 = u\<lparr>old_metadata := m\<rparr>"
  proof (cases "pkg_is_md pkg md")
    case True
    with u1 set_location_href_upd[of pkg "task_location_href u t" u u1] show ?thesis by simp
  next
    case False
    with u1 have "u1 = u" by simp
    with upd_same[of u] show ?thesis by metis
  qed
  then obtain m where m: "u1 = u\<lparr>old_metadata := m\<rparr>" by blast
  have "bt_id b = task_id t" "bt_res b = res" "bt_pkg b = pkg" by (simp_all add: b_def)
  with u' p' m show ?thesis by (intro exI[of _ m] exI[of _ b]) simp
qed

lemma step_buffer_nodefer:
  assumes "step_buffer X t res pkg md (u, w) = Some (u', w', p')"
    and "\<not> (length (buffer u) < MAX_TASK_BUFFER_LEN \<and> id_pri u \<noteq> task_id t
         \<and> package_count u > task_id t + 1)"
  shows "u' = u \<and> w' = w \<and> p' = PC_Write Primary res pkg"
  using assms by (auto split: if_splits)

lemma step_drain_pop:
  assumes "step_drain (u, w) = Some (u', w', p')" "buffer u = b # rest" "bt_id b = id_pri u"
  shows "u' = u\<lparr>buffer := rest\<rparr> \<and> w' = w \<and> p' = PC_DrainWrite Primary b"
  using assms by auto

lemma step_drain_exit:
  assumes "step_drain (u, w) = Some (u', w', p')"
    "\<not> (\<exists>b rest. buffer u = b # rest \<and> bt_id b = id_pri u)"
  shows "u' = u \<and> w' = w \<and> p' = PC_Done"
  using assms by (auto split: list.splits if_splits)

lemma sched_stepD:
  assumes "sched_step X ts pool i s = Some s'"
  shows "i < length ts \<and> \<not> aborted ts s
     \<and> (\<exists>u' w' p'. thread_step X (ts ! i) (ud s, world s, pcs s i) = Some (u', w', p')
          \<and> s' = \<lparr>ud = u', world = w', pcs = (pcs s)(i := p')\<rparr>)"
  using assms by (auto simp: sched_step_def may_move_def split: if_splits option.splits)

lemma sched_step_cases [consumes 1,
    case_names Front Defer NoDefer Write Cleanup Skip DrainExit DrainPop DrainWrite]:
  assumes step: "sched_step X ts pool i s = Some s'"
  obtains
    (Front) p' m where "i < length ts" "is_front (pcs s i)" "front_next p'"
      "\<forall>res pkg md. pcs s i = PC_Buffer res pkg md \<longrightarrow> False"
      "ud s' = (ud s)\<lparr>old_metadata := m\<rparr>" "pcs s' = (pcs s)(i := p')"
  | (Defer) res pkg md m b where "i < length ts" "pcs s i = PC_Buffer res pkg md"
      "length (buffer (ud s)) < MAX_TASK_BUFFER_LEN" "id_pri (ud s) \<noteq> task_id (ts ! i)"
      "task_id (ts ! i) + 1 < package_count (ud s)" "bt_id b = task_id (ts ! i)"
      "ud s' = (ud s)\<lparr>old_metadata := m,
                 buffer := g_queue_insert_sorted (buffer (ud s)) b buf_task_sort_func\<rparr>"
      "pcs s' = (pcs s)(i := PC_Done)"
  | (NoDefer) res pkg md where "i < length ts" "pcs s i = PC_Buffer res pkg md"
      "ud s' = ud s" "pcs s' = (pcs s)(i := PC_Write Primary res pkg)"
  | (Write) st res pkg f db where "i < length ts" "pcs s i = PC_Write st res pkg"
      "id_of st (ud s) = task_id (ts ! i)" "ud s' = bump st (task_id (ts ! i)) f db (ud s)"
      "pcs s' = (pcs s)(i := after_write st res pkg)"
  | (Cleanup) failed where "i < length ts" "pcs s i = PC_Cleanup failed" "ud s' = ud s"
      "pcs s' = (pcs s)(i := (if id_pri (ud s) \<le> task_id (ts ! i) then PC_Skip Primary else PC_Drain))"
  | (Skip) st f db where "i < length ts" "pcs s i = PC_Skip st"
      "id_of st (ud s) = task_id (ts ! i)" "ud s' = bump st (task_id (ts ! i)) f db (ud s)"
      "pcs s' = (pcs s)(i := after_skip st)"
  | (DrainExit) "i < length ts" "pcs s i = PC_Drain"
      "\<forall>b rest. buffer (ud s) = b # rest \<longrightarrow> bt_id b \<noteq> id_pri (ud s)"
      "ud s' = ud s" "pcs s' = (pcs s)(i := PC_Done)"
  | (DrainPop) b rest where "i < length ts" "pcs s i = PC_Drain" "buffer (ud s) = b # rest"
      "bt_id b = id_pri (ud s)" "ud s' = (ud s)\<lparr>buffer := rest\<rparr>"
      "pcs s' = (pcs s)(i := PC_DrainWrite Primary b)"
  | (DrainWrite) st b f db where "i < length ts" "pcs s i = PC_DrainWrite st b"
      "id_of st (ud s) = bt_id b" "ud s' = bump st (bt_id b) f db (ud s)"
      "pcs s' = (pcs s)(i := after_drain_write st b)"
proof -
  from sched_stepD[OF step] obtain u' w' p' where i: "i < length ts" and
    ts: "thread_step X (ts ! i) (ud s, world s, pcs s i) = Some (u', w', p')"
    and s': "s' = \<lparr>ud = u', world = w', pcs = (pcs s)(i := p')\<rparr>"
    by blast
  from s' have s'': "ud s' = u'" "pcs s' = (pcs s)(i := p')" by simp_all
  show thesis
  proof (cases "pcs s i")
    case PC_Stat
    with ts s'' i step_stat_shape[of X "ts ! i" "ud s" "world s" u' w' p'] show ?thesis
      by (intro Front[of p' "old_metadata (ud s)"]) auto
  next
    case (PC_Update sb)
    with ts step_update_shape[of X "ts ! i" sb "ud s" "world s" u' w' p']
    obtain m where "u' = (ud s)\<lparr>old_metadata := m\<rparr>" "front_next p'" by auto
    with PC_Update s'' i show ?thesis
      by (intro Front[of p' m]) auto
  next
    case (PC_Load ou md)
    with ts s'' i step_load_shape[of X "ts ! i" ou md "ud s" "world s" u' w' p'] show ?thesis
      by (intro Front[of p' "old_metadata (ud s)"]) auto
  next
    case (PC_Buffer res pkg md)
    with ts have sb: "step_buffer X (ts ! i) res pkg md (ud s, world s) = Some (u', w', p')"
      by simp
    show ?thesis
    proof (cases "length (buffer (ud s)) < MAX_TASK_BUFFER_LEN
         \<and> id_pri (ud s) \<noteq> task_id (ts ! i)
         \<and> package_count (ud s) > task_id (ts ! i) + 1")
      case True
      from step_buffer_defer[OF sb True] obtain m b where
        "bt_id b = task_id (ts ! i)" "p' = PC_Done"
        "u' = (ud s)\<lparr>old_metadata := m,
                 buffer := g_queue_insert_sorted (buffer (ud s)) b buf_task_sort_func\<rparr>"
        by blast
      with True PC_Buffer i s'' show ?thesis
        by (intro Defer[of res pkg md b m]) simp_all
    next
      case False
      from step_buffer_nodefer[OF sb False] PC_Buffer i s'' show ?thesis
        by (intro NoDefer[of res pkg md]) simp_all
    qed
  next
    case (PC_Write st res pkg)
    with ts obtain u1 w1 where w: "write_stream st X (task_id (ts ! i)) res pkg (ud s, world s) = Some (u1, w1)"
      and e: "u' = u1" "p' = after_write st res pkg"
      by (auto simp: thread_step_Write)
    from write_stream_Some[OF w] PC_Write e s'' i show ?thesis
      by (intro Write[of st res pkg]) auto
  next
    case (PC_Cleanup failed)
    with ts s'' i show ?thesis
      by (intro Cleanup[of failed]) (auto split: if_splits)
  next
    case (PC_Skip st)
    with ts obtain u1 where w: "skip_stream st (task_id (ts ! i)) (ud s) = Some u1"
      and e: "u' = u1" "p' = after_skip st"
      by (auto simp: thread_step_Skip)
    from skip_stream_Some[OF w] PC_Skip e s'' i show ?thesis
      by (intro Skip[of st]) auto
  next
    case PC_Drain
    with ts have sd: "step_drain (ud s, world s) = Some (u', w', p')" by simp
    show ?thesis
    proof (cases "\<exists>b rest. buffer (ud s) = b # rest \<and> bt_id b = id_pri (ud s)")
      case True
      then obtain b rest where br: "buffer (ud s) = b # rest" "bt_id b = id_pri (ud s)" by blast
      from step_drain_pop[OF sd br] br PC_Drain i s'' show ?thesis
        by (intro DrainPop[of b rest]) simp_all
    next
      case False
      from step_drain_exit[OF sd False] False PC_Drain i s'' show ?thesis
        by (intro DrainExit) auto
    qed
  next
    case (PC_DrainWrite st b)
    with ts obtain u1 w1 where w: "write_stream st X (bt_id b) (bt_res b) (bt_pkg b) (ud s, world s) = Some (u1, w1)"
      and e: "u' = u1" "p' = after_drain_write st b"
      by (auto simp: thread_step_DrainWrite)
    from write_stream_Some[OF w] PC_DrainWrite e s'' i show ?thesis
      by (intro DrainWrite[of st b]) auto
  next
    case PC_Done
    with ts show ?thesis by simp
  next
    case PC_Abort
    with ts show ?thesis by simp
  next
    case PC_Undefined
    with ts show ?thesis by simp
  qed
qed

subsection \<open>The invariant is kept by every transition\<close>

lemma task_id_nth: "map task_id ts = [0..<length ts] \<Longrightarrow> i < length ts \<Longrightarrow> task_id (ts ! i) = i"
  by (metis add_0 length_map nth_map nth_upt)

lemmas hold_simps = hold_ok.simps

declare hold_ok.simps [simp del]

lemma hold_ok_md [simp]: "hold_ok (u\<lparr>old_metadata := m\<rparr>) st k = hold_ok u st k"
  by (cases st) (simp_all add: hold_simps)

lemma hold_ok_buffer [simp]: "hold_ok (u\<lparr>buffer := b\<rparr>) st k = hold_ok u st k"
  by (cases st) (simp_all add: hold_simps)

lemma done_ok_md [simp]: "done_ok (u\<lparr>old_metadata := m\<rparr>) k = done_ok u k"
  by (simp add: done_ok_def)

lemma done_ok_buffer [simp]: "done_ok (u\<lparr>buffer := b\<rparr>) k = done_ok u k"
  by (simp add: done_ok_def)

lemma place_ok_md [simp]: "place_ok (u\<lparr>old_metadata := m\<rparr>) k p = place_ok u k p"
  by (cases p) simp_all

lemma place_ok_buffer [simp]: "place_ok (u\<lparr>buffer := b\<rparr>) k p = place_ok u k p"
  by (cases p) simp_all

lemma buf_ids_md [simp]: "buf_ids (u\<lparr>old_metadata := m\<rparr>) = buf_ids u"
  by (simp add: buf_ids_def)

lemma buf_ids_buffer: "buf_ids (u\<lparr>buffer := b\<rparr>) = map bt_id b"
  by (simp add: buf_ids_def)

lemma set_buf_ids_insert [simp]:
  "set (map bt_id (g_queue_insert_sorted xs b f)) = insert (bt_id b) (set (map bt_id xs))"
  by simp

lemma set_buf_ids_defer [simp]:
  "set (buf_ids (u\<lparr>old_metadata := m, buffer := g_queue_insert_sorted (buffer u) b f\<rparr>))
     = insert (bt_id b) (set (buf_ids u))"
  by (simp add: buf_ids_def)

lemma set_buf_ids_pop:
  "buffer u = b # rest \<Longrightarrow> set (buf_ids u) = insert (bt_id b) (set (buf_ids (u\<lparr>buffer := rest\<rparr>)))"
  by (simp add: buf_ids_def)

lemma buf_ids_bump [simp]: "buf_ids (bump st i f db u) = buf_ids u"
  by (cases st) (simp_all add: buf_ids_def)

lemma buffer_bump [simp]: "buffer (bump st i f db u) = buffer u"
  by (cases st) simp_all

lemma package_count_bump [simp]: "package_count (bump st i f db u) = package_count u"
  by (cases st) simp_all

lemma hold_bump_other:
  "hold_ok u st' k \<Longrightarrow> id_of st u = i \<Longrightarrow> k \<noteq> i \<Longrightarrow> hold_ok (bump st i f db u) st' k"
  by (cases st; cases st') (auto simp: hold_simps)

lemma done_bump: "done_ok u k \<Longrightarrow> id_of st u = i \<Longrightarrow> done_ok (bump st i f db u) k"
  by (cases st) (auto simp: done_ok_def)

lemma place_bump_other:
  "place_ok u k p \<Longrightarrow> id_of st u = i \<Longrightarrow> k \<noteq> i \<Longrightarrow> place_ok (bump st i f db u) k p"
  by (cases p) (auto intro: hold_bump_other done_bump)


lemma hold_bump_self:
  "hold_ok u st i \<Longrightarrow> place_ok (bump st i f db u) i (next_place st)"
  by (cases st) (auto simp: done_ok_def hold_simps)

lemma own_place_after_write [simp]: "own_place (after_write st res pkg) = next_place st"
  by (cases st) simp_all

lemma own_place_after_skip [simp]: "own_place (after_skip st) = next_place st"
  by (cases st) simp_all

lemma own_place_after_drain_write [simp]: "own_place (after_drain_write st b) = Past"
  by (cases st) simp_all

lemma own_place_front: "is_front p \<Longrightarrow> own_place p = Before Primary"
  by (cases p) simp_all

lemma own_place_front_next: "front_next p \<Longrightarrow> own_place p = Before Primary"
  by (cases p) (auto split: if_splits)

lemma inv_static_step:
  assumes inv: "inv_order ts s" and step: "sched_step X ts pool i s = Some s'"
  shows "inv_static ts s'"
  using step
proof (cases rule: sched_step_cases)
  case (Write st res pkg f db)
  with inv task_id_nth[of ts i] show ?thesis
    by (cases st)
       (auto simp: inv_order_def inv_static_def inv_own_def hold_simps dest!: spec[of _ i])
next
  case (Skip st f db)
  with inv task_id_nth[of ts i] show ?thesis
    by (cases st)
       (auto simp: inv_order_def inv_static_def inv_own_def hold_simps dest!: spec[of _ i])
next
  case (DrainWrite st b f db)
  with inv show ?thesis
    by (cases st)
       (auto simp: inv_order_def inv_static_def inv_drain_def hold_simps dest!: spec[of _ i])
qed (use inv in \<open>auto simp: inv_order_def inv_static_def\<close>)


lemma inv_orderD:
  assumes "inv_order ts s"
  shows "inv_static ts s" "inv_own ts s" "inv_buf ts s" "inv_drain ts s" "inv_queue s"
    "inv_cov ts s" "inv_wake ts s"
  using assms by (simp_all add: inv_order_def)

lemma inv_task_id:
  "inv_order ts s \<Longrightarrow> i < length ts \<Longrightarrow> task_id (ts ! i) = i"
  by (simp add: inv_order_def inv_static_def task_id_nth)

lemma inv_ownD:
  "inv_order ts s \<Longrightarrow> i < length ts \<Longrightarrow> place_ok (ud s) i (own_place (pcs s i))"
  by (simp add: inv_order_def inv_own_def)

lemma inv_bufD:
  "inv_order ts s \<Longrightarrow> k \<in> set (buf_ids (ud s)) \<Longrightarrow>
     k < length ts \<and> pcs s k = PC_Done \<and> hold_ok (ud s) Primary k"
  by (simp add: inv_order_def inv_buf_def)

lemma inv_drainD:
  "inv_order ts s \<Longrightarrow> j < length ts \<Longrightarrow> pcs s j = PC_DrainWrite st b \<Longrightarrow>
     bt_id b < length ts \<and> pcs s (bt_id b) = PC_Done \<and> hold_ok (ud s) st (bt_id b)
        \<and> bt_id b \<notin> set (buf_ids (ud s))
        \<and> (\<forall>j'<length ts. \<forall>st' b'. j' \<noteq> j \<and> pcs s j' = PC_DrainWrite st' b'
               \<longrightarrow> bt_id b' \<noteq> bt_id b)"
  unfolding inv_order_def inv_drain_def by blast

lemma inv_own_step:
  assumes inv: "inv_order ts s" and step: "sched_step X ts pool i s = Some s'"
  shows "inv_own ts s'"
  unfolding inv_own_def
proof (intro allI impI)
  fix k assume k: "k < length ts"
  note ok = inv_ownD[OF inv k]
  from step show "place_ok (ud s') k (own_place (pcs s' k))"
  proof (cases rule: sched_step_cases)
    case (Front p' m)
    with ok show ?thesis by (auto simp: own_place_front own_place_front_next)
  next
    case (Defer res pkg md m b)
    with ok show ?thesis by auto
  next
    case (NoDefer res pkg md)
    with ok show ?thesis by auto
  next
    case (Write st res pkg f db)
    with ok inv_task_id[OF inv, of i] show ?thesis
      by (auto intro: hold_bump_self place_bump_other)
  next
    case (Cleanup failed)
    with ok inv_task_id[OF inv, of i] show ?thesis
      by (auto simp: done_ok_def hold_simps split: if_splits)
  next
    case (Skip st f db)
    with ok inv_task_id[OF inv, of i] show ?thesis
      by (auto intro: hold_bump_self place_bump_other)
  next
    case DrainExit
    with ok show ?thesis by auto
  next
    case (DrainPop b rest)
    with ok show ?thesis by auto
  next
    case (DrainWrite st b f db)
    from inv_drainD[OF inv DrainWrite(1,2)] have d: "pcs s (bt_id b) = PC_Done" by simp
    show ?thesis
    proof (cases "k = bt_id b")
      case True
      with d DrainWrite show ?thesis by auto
    next
      case False
      with ok DrainWrite show ?thesis
        by (auto intro: done_bump place_bump_other)
    qed
  qed
qed

lemma inv_buf_step:
  assumes inv: "inv_order ts s" and step: "sched_step X ts pool i s = Some s'"
  shows "inv_buf ts s'"
  unfolding inv_buf_def
proof (intro ballI)
  fix k assume k: "k \<in> set (buf_ids (ud s'))"
  note B = inv_bufD[OF inv]
  from step show "k < length ts \<and> pcs s' k = PC_Done \<and> hold_ok (ud s') Primary k"
  proof (cases rule: sched_step_cases)
    case (Front p' m)
    with k B[of k] show ?thesis by auto
  next
    case (Defer res pkg md m b)
    from k Defer have "k = i \<or> k \<in> set (buf_ids (ud s))"
      using inv_task_id[OF inv, of i] by simp
    with Defer B[of k] inv_ownD[OF inv, of i] show ?thesis by auto
  next
    case (NoDefer res pkg md)
    with k B[of k] show ?thesis by auto
  next
    case (Write st res pkg f db)
    with k B[of k] inv_task_id[OF inv, of i] show ?thesis
      by (auto intro: hold_bump_other)
  next
    case (Cleanup failed)
    with k B[of k] show ?thesis by auto
  next
    case (Skip st f db)
    with k B[of k] inv_task_id[OF inv, of i] show ?thesis
      by (auto intro: hold_bump_other)
  next
    case DrainExit
    with k B[of k] show ?thesis by auto
  next
    case (DrainPop b rest)
    from k DrainPop set_buf_ids_pop[of "ud s" b rest] have "k \<in> set (buf_ids (ud s))" by simp
    with DrainPop B[of k] show ?thesis by auto
  next
    case (DrainWrite st b f db)
    with k B[of k] inv_drainD[OF inv DrainWrite(1,2)] show ?thesis
      by (auto intro: hold_bump_other)
  qed
qed

lemma inv_queue_step:
  assumes inv: "inv_order ts s" and step: "sched_step X ts pool i s = Some s'"
  shows "inv_queue s'"
proof -
  from inv have q: "sorted_wrt (<) (buf_ids (ud s))" "length (buffer (ud s)) \<le> MAX_TASK_BUFFER_LEN"
    by (simp_all add: inv_order_def inv_queue_def)
  from step show ?thesis
  proof (cases rule: sched_step_cases)
    case (Defer res pkg md m b)
    from Defer(2) inv_bufD[OF inv, of i] have "i \<notin> set (buf_ids (ud s))" by auto
    with Defer inv_task_id[OF inv, of i] have "bt_id b \<notin> bt_id ` set (buffer (ud s))"
      by (simp add: buf_ids_def)
    with q Defer sorted_insert_sorted[of "buffer (ud s)" b] show ?thesis
      by (simp add: inv_queue_def buf_ids_def)
  next
    case (DrainPop b rest)
    with q show ?thesis by (simp add: inv_queue_def buf_ids_def)
  qed (use q in \<open>simp_all add: inv_queue_def\<close>)
qed


lemma after_write_not_drain [simp]: "after_write st res pkg \<noteq> PC_DrainWrite st' b"
  by (cases st) simp_all

lemma after_skip_not_drain [simp]: "after_skip st \<noteq> PC_DrainWrite st' b"
  by (cases st) simp_all

lemma front_next_not_drain: "front_next p \<Longrightarrow> p \<noteq> PC_DrainWrite st b \<and> p \<noteq> PC_Done"
  by (cases p) auto

lemma is_front_not_done: "is_front p \<Longrightarrow> p \<noteq> PC_Done \<and> p \<noteq> PC_DrainWrite st b"
  by (cases p) auto

lemma after_drain_write_eq:
  "after_drain_write st0 b0 = PC_DrainWrite st b \<Longrightarrow> b = b0 \<and> Before st = next_place st0"
  by (cases st0) auto

lemma sorted_hd_notin:
  "sorted_wrt (<) (map bt_id (b # rest)) \<Longrightarrow> bt_id b \<notin> set (map bt_id rest)"
  by auto

lemma inv_drain_step:
  assumes inv: "inv_order ts s" and step: "sched_step X ts pool i s = Some s'"
  shows "inv_drain ts s'"
  unfolding inv_drain_def
proof (intro allI impI)
  fix j st b
  assume j: "j < length ts" and pj: "pcs s' j = PC_DrainWrite st b"
  note D = inv_drainD[OF inv]
  note B = inv_bufD[OF inv]
  let ?goal = "bt_id b < length ts \<and> pcs s' (bt_id b) = PC_Done \<and> hold_ok (ud s') st (bt_id b)
        \<and> bt_id b \<notin> set (buf_ids (ud s'))
        \<and> (\<forall>j'<length ts. \<forall>st' b'. j' \<noteq> j \<and> pcs s' j' = PC_DrainWrite st' b'
               \<longrightarrow> bt_id b' \<noteq> bt_id b)"
  from step show ?goal
  proof (cases rule: sched_step_cases)
    case (Front p' m)
    from Front pj front_next_not_drain[of p'] have ji: "j \<noteq> i" and old: "pcs s j = PC_DrainWrite st b"
      by (auto split: if_splits)
    from D[OF j old] Front is_front_not_done[of "pcs s i"] front_next_not_drain[of p']
    show ?thesis by (auto split: if_splits)
  next
    case (Defer res pkg md m b0)
    from Defer pj have ji: "j \<noteq> i" and old: "pcs s j = PC_DrainWrite st b"
      by (auto split: if_splits)
    from D[OF j old] Defer inv_task_id[OF inv, of i]
    show ?thesis by (auto split: if_splits)
  next
    case (NoDefer res pkg md)
    from NoDefer pj have ji: "j \<noteq> i" and old: "pcs s j = PC_DrainWrite st b"
      by (auto split: if_splits)
    from D[OF j old] NoDefer
    show ?thesis by (auto split: if_splits)
  next
    case (Write st0 res pkg f db)
    from Write pj have ji: "j \<noteq> i" and old: "pcs s j = PC_DrainWrite st b"
      by (auto split: if_splits)
    from D[OF j old] Write inv_task_id[OF inv, of i]
    show ?thesis by (auto split: if_splits intro: hold_bump_other)
  next
    case (Cleanup failed)
    from Cleanup pj have ji: "j \<noteq> i" and old: "pcs s j = PC_DrainWrite st b"
      by (auto split: if_splits)
    from D[OF j old] Cleanup
    show ?thesis by (auto split: if_splits)
  next
    case (Skip st0 f db)
    from Skip pj have ji: "j \<noteq> i" and old: "pcs s j = PC_DrainWrite st b"
      by (auto split: if_splits)
    from D[OF j old] Skip inv_task_id[OF inv, of i]
    show ?thesis by (auto split: if_splits intro: hold_bump_other)
  next
    case DrainExit
    from DrainExit pj have ji: "j \<noteq> i" and old: "pcs s j = PC_DrainWrite st b"
      by (auto split: if_splits)
    from D[OF j old] DrainExit
    show ?thesis by (auto split: if_splits)
  next
    case (DrainPop b0 rest)
    from inv DrainPop have srt: "sorted_wrt (<) (map bt_id (b0 # rest))"
      by (simp add: inv_order_def inv_queue_def buf_ids_def)
    from DrainPop have b0in: "bt_id b0 \<in> set (buf_ids (ud s))" by (simp add: buf_ids_def)
    have sub: "set (buf_ids (ud s')) \<subseteq> set (buf_ids (ud s))"
      using DrainPop by (auto simp: buf_ids_def)
    have nin: "bt_id b0 \<notin> set (buf_ids (ud s'))"
      using sorted_hd_notin[OF srt] DrainPop by (simp add: buf_ids_def)
    have other: "bt_id b' \<noteq> bt_id b0" if "j' < length ts" "pcs s j' = PC_DrainWrite st' b'"
      for j' st' b'
      using D[OF that] b0in by auto
    from B[OF b0in] DrainPop have b0i: "bt_id b0 \<noteq> i" by auto
    show ?thesis
    proof (cases "j = i")
      case True
      with pj DrainPop have e: "st = Primary" "b = b0" by auto
      have uniq: "\<forall>j'<length ts. \<forall>st' b'. j' \<noteq> j \<and> pcs s' j' = PC_DrainWrite st' b'
               \<longrightarrow> bt_id b' \<noteq> bt_id b"
        using other True DrainPop(6) e by (auto split: if_splits)
      from B[OF b0in] b0i e DrainPop nin have
        "bt_id b < length ts \<and> pcs s' (bt_id b) = PC_Done \<and> hold_ok (ud s') st (bt_id b)
          \<and> bt_id b \<notin> set (buf_ids (ud s'))"
        by auto
      with uniq show ?thesis by blast
    next
      case False
      with DrainPop pj have old: "pcs s j = PC_DrainWrite st b" by auto
      note Dj = D[OF j old]
      have uniq: "\<forall>j'<length ts. \<forall>st' b'. j' \<noteq> j \<and> pcs s' j' = PC_DrainWrite st' b'
               \<longrightarrow> bt_id b' \<noteq> bt_id b"
      proof (intro allI impI)
        fix j' st' b'
        assume a: "j' < length ts" "j' \<noteq> j \<and> pcs s' j' = PC_DrainWrite st' b'"
        show "bt_id b' \<noteq> bt_id b"
        proof (cases "j' = i")
          case True
          with a DrainPop(6) have "b' = b0" by auto
          with other[OF j old] show ?thesis by auto
        next
          case F: False
          with a DrainPop(6) have "pcs s j' = PC_DrainWrite st' b'" by auto
          with Dj a show ?thesis by blast
        qed
      qed
      from Dj have "bt_id b \<noteq> i" using DrainPop(2) by auto
      with Dj DrainPop sub have
        "bt_id b < length ts \<and> pcs s' (bt_id b) = PC_Done \<and> hold_ok (ud s') st (bt_id b)
          \<and> bt_id b \<notin> set (buf_ids (ud s'))"
        by auto
      with uniq show ?thesis by blast
    qed
  next
    case (DrainWrite st0 b0 f db)
    note Di = D[OF DrainWrite(1,2)]
    show ?thesis
    proof (cases "j = i")
      case True
      with pj DrainWrite after_drain_write_eq[of st0 b0 st b] have e: "b = b0" "Before st = next_place st0"
        by auto
      from Di DrainWrite have ne: "bt_id b0 \<noteq> i" by auto
      from Di hold_bump_self[of "ud s" st0 "bt_id b0" f db] e
      have h: "hold_ok (bump st0 (bt_id b0) f db (ud s)) st (bt_id b0)"
        by (metis place_ok.simps(1))
      from Di e DrainWrite ne h True show ?thesis
        by (auto split: if_splits)
    next
      case False
      with DrainWrite pj have old: "pcs s j = PC_DrainWrite st b" by auto
      from Di j old False have ne: "bt_id b \<noteq> bt_id b0" by blast
      from D[OF j old] Di DrainWrite False ne after_drain_write_eq[of st0 b0] show ?thesis
        by (auto split: if_splits intro: hold_bump_other)
    qed
  qed
qed


lemma post_pri_after [simp]:
  "post_pri (after_write st res pkg)" "post_pri (after_skip st)" "post_pri (after_drain_write st b)"
  by (cases st; simp)+

lemma after_not_done [simp]:
  "after_write st res pkg \<noteq> PC_Done" "after_skip st \<noteq> PC_Done"
  "after_drain_write st b \<noteq> PC_Done"
  by (cases st; simp)+

lemma front_not_post: "is_front p \<Longrightarrow> \<not> post_pri p"
  by (cases p) auto

lemma front_next_not_post: "front_next p \<Longrightarrow> \<not> post_pri p"
  by (cases p) auto

lemma inv_covD:
  "inv_order ts s \<Longrightarrow> k < length ts \<Longrightarrow> pcs s k = PC_Done \<Longrightarrow>
     done_ok (ud s) k \<or> k \<in> set (buf_ids (ud s))
        \<or> (\<exists>j<length ts. \<exists>st b. pcs s j = PC_DrainWrite st b \<and> bt_id b = k)"
  unfolding inv_order_def inv_cov_def by blast

lemma inv_cov_step:
  assumes inv: "inv_order ts s" and step: "sched_step X ts pool i s = Some s'"
  shows "inv_cov ts s'"
  unfolding inv_cov_def
proof (intro allI impI)
  fix k assume k: "k < length ts" and pk: "pcs s' k = PC_Done"
  note C = inv_covD[OF inv k]
  let ?goal = "done_ok (ud s') k \<or> k \<in> set (buf_ids (ud s'))
        \<or> (\<exists>j<length ts. \<exists>st b. pcs s' j = PC_DrainWrite st b \<and> bt_id b = k)"
  have keep: ?goal
    if old: "pcs s k = PC_Done" and nd: "\<forall>st b. pcs s i \<noteq> PC_DrainWrite st b"
      and p': "pcs s' = (pcs s)(i := p')"
      and dn: "done_ok (ud s) k \<Longrightarrow> done_ok (ud s') k"
      and sub: "set (buf_ids (ud s)) \<subseteq> set (buf_ids (ud s'))"
    for p'
  proof -
    from C[OF old] consider "done_ok (ud s) k" | "k \<in> set (buf_ids (ud s))"
      | j st b where "j < length ts" "pcs s j = PC_DrainWrite st b" "bt_id b = k"
      by blast
    then show ?thesis
    proof cases
      case 1
      with dn show ?thesis by simp
    next
      case 2
      with sub show ?thesis by auto
    next
      case 3
      with nd have "j \<noteq> i" by auto
      with 3 p' have "pcs s' j = PC_DrainWrite st b" by simp
      with 3 show ?thesis by blast
    qed
  qed
  from step show ?goal
  proof (cases rule: sched_step_cases)
    case (Front p' m)
    with pk front_next_not_drain[of p'] have "pcs s k = PC_Done" by (auto split: if_splits)
    then show ?thesis
      using Front is_front_not_done[of "pcs s i"] by (intro keep[of p']) auto
  next
    case (Defer res pkg md m b)
    show ?thesis
    proof (cases "k = i")
      case True
      with Defer inv_task_id[OF inv, of i] show ?thesis by simp
    next
      case False
      with pk Defer have "pcs s k = PC_Done" by simp
      then show ?thesis
        using Defer by (intro keep[of PC_Done]) auto
    qed
  next
    case (NoDefer res pkg md)
    with pk have "pcs s k = PC_Done" by (auto split: if_splits)
    then show ?thesis
      using NoDefer by (intro keep[of "PC_Write Primary res pkg"]) auto
  next
    case (Write st res pkg f db)
    with pk have "pcs s k = PC_Done" by (auto split: if_splits)
    then show ?thesis
      using Write by (intro keep[of "after_write st res pkg"]) (auto intro: done_bump)
  next
    case (Cleanup failed)
    with pk have "pcs s k = PC_Done" by (auto split: if_splits)
    then show ?thesis
      using Cleanup by (intro keep[of "if id_pri (ud s) \<le> task_id (ts ! i) then PC_Skip Primary else PC_Drain"]) auto
  next
    case (Skip st f db)
    with pk have "pcs s k = PC_Done" by (auto split: if_splits)
    then show ?thesis
      using Skip by (intro keep[of "after_skip st"]) (auto intro: done_bump)
  next
    case DrainExit
    show ?thesis
    proof (cases "k = i")
      case True
      with DrainExit inv_ownD[OF inv, of i] show ?thesis by simp
    next
      case False
      with pk DrainExit have "pcs s k = PC_Done" by simp
      then show ?thesis
        using DrainExit by (intro keep[of PC_Done]) auto
    qed
  next
    case (DrainPop b0 rest)
    with pk have old: "pcs s k = PC_Done" and ki: "k \<noteq> i" by (auto split: if_splits)
    from C[OF old] consider "done_ok (ud s) k" | "k \<in> set (buf_ids (ud s))"
      | j st b where "j < length ts" "pcs s j = PC_DrainWrite st b" "bt_id b = k"
      by blast
    then show ?thesis
    proof cases
      case 1
      with DrainPop show ?thesis by simp
    next
      case 2
      with set_buf_ids_pop[OF DrainPop(3)] DrainPop(5) have "k = bt_id b0 \<or> k \<in> set (buf_ids (ud s'))"
        by auto
      with DrainPop(1,6) show ?thesis by auto
    next
      case 3
      with DrainPop have "j \<noteq> i" by auto
      with 3 DrainPop have "pcs s' j = PC_DrainWrite st b" by simp
      with 3 show ?thesis by blast
    qed
  next
    case (DrainWrite st0 b0 f db)
    with pk have old: "pcs s k = PC_Done" and ki: "k \<noteq> i" by (auto split: if_splits)
    note Di = inv_drainD[OF inv DrainWrite(1,2)]
    from C[OF old] consider "done_ok (ud s) k" | "k \<in> set (buf_ids (ud s))"
      | j st b where "j < length ts" "pcs s j = PC_DrainWrite st b" "bt_id b = k"
      by blast
    then show ?thesis
    proof cases
      case 1
      with DrainWrite show ?thesis by (auto intro: done_bump)
    next
      case 2
      with DrainWrite show ?thesis by simp
    next
      case 3
      show ?thesis
      proof (cases "j = i")
        case False
        with 3 DrainWrite have "pcs s' j = PC_DrainWrite st b" by simp
        with 3 show ?thesis by blast
      next
        case True
        with 3 DrainWrite have e: "b = b0" "st = st0" "k = bt_id b0" by auto
        show ?thesis
        proof (cases st0)
          case Other
          with Di hold_bump_self[of "ud s" Other "bt_id b0" f db] e DrainWrite show ?thesis
            by simp
        next
          case Primary
          with DrainWrite e have "pcs s' i = PC_DrainWrite Filelists b0" by simp
          with DrainWrite(1) e show ?thesis by blast
        next
          case Filelists
          with DrainWrite e have "pcs s' i = PC_DrainWrite Other b0" by simp
          with DrainWrite(1) e show ?thesis by blast
        qed
      qed
    qed
  qed
qed

lemma inv_wake_step:
  assumes inv: "inv_order ts s" and step: "sched_step X ts pool i s = Some s'"
  shows "inv_wake ts s'"
  unfolding inv_wake_def
proof (intro impI)
  assume a: "id_pri (ud s') \<in> set (buf_ids (ud s'))"
  from inv have W: "id_pri (ud s) \<in> set (buf_ids (ud s)) \<Longrightarrow> \<exists>j<length ts. post_pri (pcs s j)"
    by (simp add: inv_order_def inv_wake_def)
  have keep: "\<exists>j<length ts. post_pri (pcs s' j)"
    if "id_pri (ud s) \<in> set (buf_ids (ud s))" "\<not> post_pri (pcs s i)" "pcs s' = (pcs s)(i := p')"
    for p'
  proof -
    from W[OF that(1)] obtain j where "j < length ts" "post_pri (pcs s j)" by blast
    with that have "j \<noteq> i" by auto
    with \<open>post_pri (pcs s j)\<close> that(3) have "post_pri (pcs s' j)" by simp
    with \<open>j < length ts\<close> show ?thesis by blast
  qed
  have srt: "sorted_wrt (<) (buf_ids (ud s))"
    using inv by (simp add: inv_order_def inv_queue_def)
  from step show "\<exists>j<length ts. post_pri (pcs s' j)"
  proof (cases rule: sched_step_cases)
    case (Front p' m)
    with a front_not_post[of "pcs s i"] show ?thesis by (intro keep[of p']) auto
  next
    case (Defer res pkg md m b)
    with a inv_task_id[OF inv, of i] show ?thesis by (intro keep[of PC_Done]) auto
  next
    case (NoDefer res pkg md)
    with a show ?thesis by (intro keep[of "PC_Write Primary res pkg"]) auto
  next
    case (Write st res pkg f db)
    then have "post_pri (pcs s' i)" by simp
    with Write(1) show ?thesis by blast
  next
    case (Cleanup failed)
    show ?thesis
    proof (cases failed)
      case True
      with Cleanup a show ?thesis
        by (intro keep[of "if id_pri (ud s) \<le> task_id (ts ! i) then PC_Skip Primary else PC_Drain"]) auto
    next
      case False
      with Cleanup inv_ownD[OF inv, of i] inv_task_id[OF inv, of i] have "pcs s' i = PC_Drain"
        by (auto simp: done_ok_def)
      then have "post_pri (pcs s' i)" by simp
      with Cleanup(1) show ?thesis by blast
    qed
  next
    case (Skip st f db)
    then have "post_pri (pcs s' i)" by simp
    with Skip(1) show ?thesis by blast
  next
    case DrainExit
    from a DrainExit have m: "id_pri (ud s) \<in> set (buf_ids (ud s))" by simp
    then obtain b rest where br: "buffer (ud s) = b # rest"
      by (cases "buffer (ud s)") (auto simp: buf_ids_def)
    with DrainExit have ne: "bt_id b \<noteq> id_pri (ud s)" by blast
    from br have "bt_id b \<in> set (buf_ids (ud s))" by (simp add: buf_ids_def)
    from inv_bufD[OF inv this] have "id_pri (ud s) \<le> bt_id b" by (simp add: hold_simps)
    with ne have "id_pri (ud s) < bt_id b" by simp
    moreover from srt br have "\<forall>x \<in> set (buf_ids (ud s)). bt_id b \<le> x"
      by (auto simp: buf_ids_def)
    ultimately have "id_pri (ud s) \<notin> set (buf_ids (ud s))" by auto
    with m show ?thesis by simp
  next
    case (DrainPop b rest)
    from srt DrainPop have "bt_id b \<notin> set (map bt_id rest)"
      by (auto simp: buf_ids_def)
    with a DrainPop show ?thesis by (simp add: buf_ids_def)
  next
    case (DrainWrite st b f db)
    then have "post_pri (pcs s' i)" by simp
    with DrainWrite(1) show ?thesis by blast
  qed
qed

lemma inv_order_step:
  assumes "inv_order ts s" and "sched_step X ts pool i s = Some s'"
  shows "inv_order ts s'"
  unfolding inv_order_def
  using inv_static_step[OF assms] inv_own_step[OF assms] inv_buf_step[OF assms]
    inv_drain_step[OF assms] inv_queue_step[OF assms] inv_cov_step[OF assms]
    inv_wake_step[OF assms]
  by blast

lemma inv_order_run:
  assumes "run_schedule X ts pool sched s = Some s'" and "inv_order ts s"
  shows "inv_order ts s'"
  using assms
proof (induction sched arbitrary: s)
  case Nil
  then show ?case by simp
next
  case (Cons i sched)
  from Cons.prems(1) obtain s1 where s1: "sched_step X ts pool i s = Some s1"
    and r: "run_schedule X ts pool sched s1 = Some s'"
    by (auto simp: bind_eq_Some_conv)
  from Cons.IH[OF r inv_order_step[OF Cons.prems(2) s1]] show ?case .
qed

lemma inv_order_init:
  assumes "start_ok ts u"
  shows "inv_order ts (init_sys u)"
  using assms
  by (auto simp: inv_order_def inv_static_def inv_own_def inv_buf_def inv_drain_def
        inv_queue_def inv_cov_def inv_wake_def start_ok_def init_sys_def buf_ids_def hold_simps)

section \<open>What every run guarantees\<close>

lemma all_returnedD: "all_returned ts s \<Longrightarrow> i < length ts \<Longrightarrow> pcs s i = PC_Done"
  by (simp add: all_returned_def list_all_iff)

lemma final_state:
  assumes inv: "inv_order ts s" and fin: "all_returned ts s"
  shows "id_pri (ud s) = length ts \<and> id_fil (ud s) = length ts \<and> id_oth (ud s) = length ts
         \<and> buffer (ud s) = []"
proof -
  note R = all_returnedD[OF fin]
  from inv have st: "id_oth (ud s) \<le> id_fil (ud s)" "id_fil (ud s) \<le> id_pri (ud s)"
    "id_pri (ud s) \<le> length ts"
    by (simp_all add: inv_order_def inv_static_def)
  have nodrain: "\<not> (\<exists>j<length ts. \<exists>st b. pcs s j = PC_DrainWrite st b \<and> bt_id b = k)" for k
    using R by auto
  have nopost: "\<not> (\<exists>j<length ts. post_pri (pcs s j))"
    using R by auto
  have pri: "id_pri (ud s) = length ts"
  proof (rule ccontr)
    assume "id_pri (ud s) \<noteq> length ts"
    with st have m: "id_pri (ud s) < length ts" by simp
    from inv_covD[OF inv m R[OF m]] nodrain
    have "id_pri (ud s) \<in> set (buf_ids (ud s))" by (auto simp: done_ok_def)
    with inv nopost show False by (simp add: inv_order_def inv_wake_def)
  qed
  have empty: "buffer (ud s) = []"
  proof (cases "buffer (ud s)")
    case (Cons b rest)
    then have "bt_id b \<in> set (buf_ids (ud s))" by (simp add: buf_ids_def)
    from inv_bufD[OF inv this] pri have False by (auto simp: hold_simps)
    then show ?thesis ..
  qed simp
  have cov: "done_ok (ud s) k" if "k < length ts" for k
    using inv_covD[OF inv that R[OF that]] nodrain empty by (auto simp: buf_ids_def)
  have fil: "id_fil (ud s) = length ts"
  proof (rule ccontr)
    assume "id_fil (ud s) \<noteq> length ts"
    with st pri have m: "id_fil (ud s) < length ts" by simp
    from cov[OF m] show False by (simp add: done_ok_def)
  qed
  have oth: "id_oth (ud s) = length ts"
  proof (rule ccontr)
    assume "id_oth (ud s) \<noteq> length ts"
    with st fil have m: "id_oth (ud s) < length ts" by simp
    from cov[OF m] show False by (simp add: done_ok_def)
  qed
  from pri fil oth empty show ?thesis by simp
qed

text \<open>Whatever the collaborators do, whatever the size of the pool and whatever the
  schedule: in a state in which every invocation has returned, each of the three counters
  is the number of tasks and the buffer is empty.\<close>

lemma counters_reach_N:
  assumes "start_ok ts u"
    and "run_schedule X ts pool sched (init_sys u) = Some s"
    and "all_returned ts s"
  shows "id_pri (ud s) = length ts \<and> id_fil (ud s) = length ts \<and> id_oth (ud s) = length ts"
  using final_state[OF inv_order_run[OF assms(2) inv_order_init[OF assms(1)]] assms(3)]
  by simp

text \<open>Claim C2, where the code breaks it. Two tasks, both files are packages, and the
  checksum of a file cannot be computed. The worker of task 0 calls \<^verbatim>\<open>load_rpm\<close>, which
  returns NULL without setting the error it was given (line 209 leaves through
  \<^verbatim>\<open>errexit\<close>; the error is in \<^verbatim>\<open>load_rpm\<close>'s own \<^verbatim>\<open>tmp_err\<close>), so the \<^verbatim>\<open>assert\<close> of line
  298 fails. After three transitions the invocation of task 0 has aborted the process,
  the three counters are 0, not every invocation has returned, and no invocation can
  move: the counters never reach 2.\<close>

theorem C2_checksum_failure_aborts:
  "map_option (\<lambda>s. (pcs s 0, pcs s 1, id_pri (ud s), id_fil (ud s), id_oth (ud s),
                      all_returned ex_tasks2c s, no_move ex_ext_cksum ex_tasks2c 2 s))
     (run_schedule ex_ext_cksum ex_tasks2c 2 [0, 0, 0] (init_sys ex_ud2))
   = Some (PC_Abort, PC_Stat, 0, 0, 0, False, True)"
  by code_simp

lemma ex_start3: "start_ok ex_tasks3 ex_ud3"
  by (simp add: start_ok_def ex_tasks3_def ex_ud3_def ex_ud_def ex_task_def upt_rec)

lemma run_invariant:
  assumes "start_ok ts u" and "run_schedule X ts pool sched (init_sys u) = Some s"
  shows "inv_order ts s"
  using inv_order_run[OF assms(2) inv_order_init[OF assms(1)]] .

text \<open>Claim C4. In every state of every run the buffer holds at most 20 entries. In such
  a state the region under \<^verbatim>\<open>mutex_buffer\<close> puts the result into the buffer exactly when
  the buffer holds fewer than 20 entries, the task's id is not the primary counter, and
  the task is not the last one; then the worker has returned (it has no further
  transition) and has written to no stream and advanced no counter, and the buffer, one
  entry longer, still holds at most 20. Otherwise the worker goes on to \<^verbatim>\<open>write_pkg\<close>.\<close>

theorem C4_buffer_admission:
  assumes "start_ok ts u"
    and "run_schedule X ts pool sched (init_sys u) = Some s"
    and "step_buffer X t res pkg md (ud s, world s) = Some (u', w', p')"
  shows "length (buffer (ud s)) \<le> 20
     \<and> (p' = PC_Done \<longleftrightarrow>
          length (buffer (ud s)) < 20 \<and> task_id t \<noteq> id_pri (ud s) \<and> task_id t + 1 < length ts)
     \<and> (if p' = PC_Done
        then (\<exists>b. bt_id b = task_id t \<and> bt_res b = res \<and> bt_pkg b = pkg
                 \<and> set (buffer u') = insert b (set (buffer (ud s))))
             \<and> length (buffer u') = Suc (length (buffer (ud s))) \<and> length (buffer u') \<le> 20
             \<and> thread_step X t (u', w', p') = None
             \<and> pri_f u' = pri_f (ud s) \<and> fil_f u' = fil_f (ud s) \<and> oth_f u' = oth_f (ud s)
             \<and> id_pri u' = id_pri (ud s) \<and> id_fil u' = id_fil (ud s) \<and> id_oth u' = id_oth (ud s)
        else p' = PC_Write Primary res pkg \<and> u' = ud s \<and> w' = world s)"
proof -
  note inv = run_invariant[OF assms(1,2)]
  from inv have len: "length (buffer (ud s)) \<le> 20" and pc: "package_count (ud s) = length ts"
    by (simp_all add: inv_order_def inv_queue_def inv_static_def MAX_TASK_BUFFER_LEN_def)
  show ?thesis
  proof (cases "length (buffer (ud s)) < MAX_TASK_BUFFER_LEN \<and> id_pri (ud s) \<noteq> task_id t
         \<and> package_count (ud s) > task_id t + 1")
    case True
    from step_buffer_defer[OF assms(3) True] obtain m b where
      b: "bt_id b = task_id t" "bt_res b = res" "bt_pkg b = pkg" "p' = PC_Done" "w' = world s"
      "u' = (ud s)\<lparr>old_metadata := m,
                 buffer := g_queue_insert_sorted (buffer (ud s)) b buf_task_sort_func\<rparr>"
      by blast
    have "\<exists>b. bt_id b = task_id t \<and> bt_res b = res \<and> bt_pkg b = pkg
                 \<and> set (buffer u') = insert b (set (buffer (ud s)))"
      using b by (intro exI[of _ b]) simp
    with True b len pc show ?thesis
      by (auto simp: MAX_TASK_BUFFER_LEN_def)
  next
    case False
    from step_buffer_nodefer[OF assms(3) False] False len pc show ?thesis
      by (auto simp: MAX_TASK_BUFFER_LEN_def)
  qed
qed

theorem C4_buffer_admission_witness:
  "start_ok ex_tasks3 ex_ud3
   \<and> (\<exists>s u' w'. run_schedule ex_ext ex_tasks3 2 [1, 1, 1] (init_sys ex_ud3) = Some s
        \<and> step_buffer ex_ext (ex_tasks3 ! 1) (ex_dump ((ex_pkg ''a'')\<lparr>location_href := ''a.rpm''\<rparr>))
            (MdEntry ''a.rpm'') (Some ''a.rpm'') (ud s, world s) = Some (u', w', PC_Done)
        \<and> length (buffer (ud s)) = 0 \<and> length (buffer u') = 1
        \<and> task_id (ex_tasks3 ! 1) \<noteq> id_pri (ud s) \<and> task_id (ex_tasks3 ! 1) + 1 < length ex_tasks3)"
proof -
  have "map_option (\<lambda>s. (length (buffer (ud s)),
           map_option (\<lambda>(u', w', p'). (length (buffer u'), p'))
             (step_buffer ex_ext (ex_tasks3 ! 1)
               (ex_dump ((ex_pkg ''a'')\<lparr>location_href := ''a.rpm''\<rparr>))
               (MdEntry ''a.rpm'') (Some ''a.rpm'') (ud s, world s))))
          (run_schedule ex_ext ex_tasks3 2 [1, 1, 1] (init_sys ex_ud3)) = Some (0, Some (1, PC_Done))"
    by code_simp
  then obtain s u' w' where r: "run_schedule ex_ext ex_tasks3 2 [1, 1, 1] (init_sys ex_ud3) = Some s"
    and b: "step_buffer ex_ext (ex_tasks3 ! 1) (ex_dump ((ex_pkg ''a'')\<lparr>location_href := ''a.rpm''\<rparr>))
            (MdEntry ''a.rpm'') (Some ''a.rpm'') (ud s, world s) = Some (u', w', PC_Done)"
    and l: "length (buffer (ud s)) = 0" "length (buffer u') = 1"
    by auto
  from C4_buffer_admission[OF ex_start3 r b] have
    "task_id (ex_tasks3 ! 1) \<noteq> id_pri (ud s) \<and> task_id (ex_tasks3 ! 1) + 1 < length ex_tasks3"
    by simp
  with r b l ex_start3 show ?thesis by blast
qed




lemma write_stream_enabled:
  assumes "id_of st u = i" and "db_of st u = None \<or> deref u pkg \<noteq> None"
  shows "write_stream st X i res pkg (u, w) \<noteq> None"
  using assms
  by (cases st)
     (auto simp: write_stream_def Let_def deref_def split: prod.splits option.splits pkg_ptr.splits)

text \<open>Claim C8. A worker in \<^verbatim>\<open>write_pkg\<close> in front of the block of a stream can take
  that block as soon as the counter of that stream is its id (and the package pointer is
  valid where a database is attached), whatever the other two counters are. The block
  needs the counter of its stream to be the id, moves it to the id plus one, appends the
  chunk to the file of its stream, leaves the counters and the files of the other two
  streams alone, and leaves the worker in front of the next block: filelists after
  primary, other after filelists, \<^verbatim>\<open>task_cleanup\<close> after other. \<^verbatim>\<open>write_pkg\<close> as a whole
  is the three blocks in that order.\<close>

theorem C8_streams_in_order:
  "(id_of st u = task_id t \<and> (db_of st u = None \<or> deref u pkg \<noteq> None) \<longrightarrow>
      thread_step X t (u, w, PC_Write st res pkg) \<noteq> None)
   \<and> (\<forall>u' w' p'. thread_step X t (u, w, PC_Write st res pkg) = Some (u', w', p') \<longrightarrow>
        id_of st u = task_id t \<and> id_of st u' = Suc (task_id t)
        \<and> file_of st u' = fst (cr_xmlfile_add_chunk X st (file_of st u) (chunk_of st res))
        \<and> (\<forall>st'. st' \<noteq> st \<longrightarrow> id_of st' u' = id_of st' u \<and> file_of st' u' = file_of st' u)
        \<and> p' = after_write st res pkg)
   \<and> after_write Primary res pkg = PC_Write Filelists res pkg
   \<and> after_write Filelists res pkg = PC_Write Other res pkg
   \<and> after_write Other res pkg = PC_Cleanup False
   \<and> write_pkg X i res pkg (u, w) =
       Option.bind (write_stream Primary X i res pkg (u, w)) (\<lambda>s1.
       Option.bind (write_stream Filelists X i res pkg s1) (\<lambda>s2.
       write_stream Other X i res pkg s2))"
proof -
  have a: "thread_step X t (u, w, PC_Write st res pkg) \<noteq> None"
    if "id_of st u = task_id t \<and> (db_of st u = None \<or> deref u pkg \<noteq> None)"
    using write_stream_enabled[of st u "task_id t" pkg X res w] that
    by (simp add: thread_step_Write)
  have b: "id_of st u = task_id t \<and> id_of st u' = Suc (task_id t)
        \<and> file_of st u' = fst (cr_xmlfile_add_chunk X st (file_of st u) (chunk_of st res))
        \<and> (\<forall>st'. st' \<noteq> st \<longrightarrow> id_of st' u' = id_of st' u \<and> file_of st' u' = file_of st' u)
        \<and> p' = after_write st res pkg"
    if "thread_step X t (u, w, PC_Write st res pkg) = Some (u', w', p')" for u' w' p'
  proof -
    from that obtain u1 w1 where ws: "write_stream st X (task_id t) res pkg (u, w) = Some (u1, w1)"
      and e: "u' = u1" "p' = after_write st res pkg"
      by (auto simp: thread_step_Write)
    from write_stream_Some[OF ws] e have i: "id_of st u = task_id t"
      and u': "u' = bump st (task_id t)
                 (fst (cr_xmlfile_add_chunk X st (file_of st u) (chunk_of st res))) (db_of st u') u"
      by simp_all
    have 1: "id_of st u' = Suc (task_id t)"
      by (subst u') (cases st; simp)
    have 2: "file_of st u' = fst (cr_xmlfile_add_chunk X st (file_of st u) (chunk_of st res))"
      by (subst u') (cases st; simp)
    have 3: "id_of st' u' = id_of st' u \<and> file_of st' u' = file_of st' u" if "st' \<noteq> st" for st'
      using that by (subst u', subst u') (cases st; cases st'; simp)
    from i 1 2 3 e show ?thesis by blast
  qed
  have c: "write_pkg X i res pkg (u, w) =
       Option.bind (write_stream Primary X i res pkg (u, w)) (\<lambda>s1.
       Option.bind (write_stream Filelists X i res pkg s1) (\<lambda>s2.
       write_stream Other X i res pkg s2))"
    by (simp add: write_pkg_def write_stream_def)
  from a b c show ?thesis by simp
qed

lemma writes_toD: "writes_to p = Some st \<Longrightarrow> \<exists>res pkg. p = PC_Write st res pkg"
  by (cases p) auto

lemma ex_start2: "start_ok ex_tasks2 ex_ud2"
  by (simp add: start_ok_def ex_tasks2_def ex_ud2_def ex_ud_def ex_task_def upt_rec)

theorem C8_streams_in_order_witness:
  "\<exists>s r0 p0 r1 p1. run_schedule ex_ext ex_tasks2 2 ex_sched2 (init_sys ex_ud2) = Some s
      \<and> pcs s 0 = PC_Write Filelists r0 p0 \<and> id_fil (ud s) = 0
      \<and> pcs s 1 = PC_Write Primary r1 p1
      \<and> id_of Primary (ud s) = task_id (ex_tasks2 ! 1) \<and> db_of Primary (ud s) = None
      \<and> thread_step ex_ext (ex_tasks2 ! 1) (ud s, world s, PC_Write Primary r1 p1) \<noteq> None"
proof -
  have "map_option (\<lambda>s. (writes_to (pcs s 0), writes_to (pcs s 1),
                         id_fil (ud s), id_pri (ud s), pri_db (ud s)))
          (run_schedule ex_ext ex_tasks2 2 ex_sched2 (init_sys ex_ud2))
        = Some (Some Filelists, Some Primary, 0, 1, None)"
    by code_simp
  then obtain s where
    r: "run_schedule ex_ext ex_tasks2 2 ex_sched2 (init_sys ex_ud2) = Some s"
    and w: "writes_to (pcs s 0) = Some Filelists" "writes_to (pcs s 1) = Some Primary"
    and c: "id_fil (ud s) = 0" "id_pri (ud s) = 1" "pri_db (ud s) = None"
    by auto
  from w writes_toD obtain r0 p0 r1 p1 where
    p: "pcs s 0 = PC_Write Filelists r0 p0" "pcs s 1 = PC_Write Primary r1 p1"
    by blast
  have t: "task_id (ex_tasks2 ! 1) = 1" by (simp add: ex_tasks2_def ex_task_def)
  with c have h: "id_of Primary (ud s) = task_id (ex_tasks2 ! 1)
      \<and> (db_of Primary (ud s) = None \<or> deref (ud s) p1 \<noteq> None)" by simp
  from C8_streams_in_order[of Primary "ud s" "ex_tasks2 ! 1" p1 ex_ext "world s" r1, THEN conjunct1] h
  have "thread_step ex_ext (ex_tasks2 ! 1) (ud s, world s, PC_Write Primary r1 p1) \<noteq> None"
    by blast
  with r p c h show ?thesis by auto
qed

section \<open>The stat buffer and the configuration are invariant\<close>

lemma cfg_eq_refl [simp]: "cfg_eq u u"
  by (simp add: cfg_eq_def)

lemma cfg_eq_trans: "cfg_eq u v \<Longrightarrow> cfg_eq v w \<Longrightarrow> cfg_eq u w"
  by (simp add: cfg_eq_def)

lemma cfg_eq_bump [simp]: "cfg_eq u (bump st i f db u)"
  by (cases st) (simp_all add: cfg_eq_def)

lemma md_at_bump [simp]: "md_at (bump st i f db u) k = md_at u k"
  by (cases st) (simp_all add: md_at_def)

lemma cfg_eq_buffer [simp]: "cfg_eq u (u\<lparr>buffer := b\<rparr>)"
  by (simp add: cfg_eq_def)

lemma md_at_buffer [simp]: "md_at (u\<lparr>buffer := b\<rparr>) k = md_at u k"
  by (simp add: md_at_def)

lemma cfg_eq_set_location [simp]: "cfg_eq u (set_location k h b u)"
  by (simp add: cfg_eq_def set_location_def split: option.splits)

lemma md_at_set_location:
  "md_at (set_location k h b u) k' =
     (if k' = k then map_option (\<lambda>md. md\<lparr>location_href := h, location_base := b\<rparr>) (md_at u k)
      else md_at u k')"
  by (simp add: md_at_def set_location_def split: option.splits)

lemma stat_buf_ok_cfg: "cfg_eq u u' \<Longrightarrow> stat_buf_ok X u' t sb = stat_buf_ok X u t sb"
  by (auto simp: cfg_eq_def stat_buf_ok_def split: option.splits)


lemma md_frame_refl [simp]: "md_frame k u u"
  by (simp add: md_frame_def)

lemma md_frame_bump [simp]: "md_frame k u (bump st i f db u)"
  by (simp add: md_frame_def)

lemma md_frame_set_location [simp]: "md_frame k u (set_location k h b u)"
  by (simp add: md_frame_def md_at_set_location)

lemma md_frame_buffer: "md_frame k u u1 \<Longrightarrow> md_frame k u (u1\<lparr>buffer := b\<rparr>)"
  by (simp add: md_frame_def cfg_eq_def md_at_def)

lemma step_stat_frame:
  assumes "step_stat X t (u, w) = Some (u', w', p')"
  shows "u' = u \<and> (p' = PC_Cleanup True \<or> (\<exists>sb. p' = PC_Update sb \<and> stat_buf_ok X u t sb))"
  using assms by (auto simp: do_stat_def stat_buf_ok_def split: if_splits sum.splits)

lemma step_update_frame:
  assumes "step_update X t sb (u, w) = Some (u', w', p')" and "stat_buf_ok X u t sb"
  shows "md_frame (filename t) u u' \<and> (\<exists>ou md. p' = PC_Load ou md \<and> ptr_ok t p')"
proof -
  from assms have "(u' = u \<or> u' = set_location (filename t) (task_location_href u t)
      (ud_location_base u) u) \<and> (\<exists>ou md. p' = PC_Load ou md \<and> ptr_ok t p')"
    by (auto simp: Let_def stat_buf_ok_def split: if_splits option.splits)
  then show ?thesis by auto
qed

lemma step_load_frame:
  assumes "step_load X t ou md (u, w) = Some (u', w', p')" and "ptr_ok t (PC_Load ou md)"
  shows "u' = u \<and> ptr_ok t p' \<and> p' \<noteq> PC_Undefined \<and> (\<forall>sb. p' \<noteq> PC_Update sb)"
  using assms
  by (auto simp: Let_def split: if_splits option.splits sum.splits prod.splits)

lemma set_location_href_frame:
  assumes "set_location_href pkg h u = Some u1" and "ptr_ok t (PC_Buffer res pkg md)"
  shows "md_frame (filename t) u u1"
  using assms
  by (cases pkg) (auto simp: set_location_href_def split: option.splits)

lemma step_buffer_frame:
  assumes "step_buffer X t res pkg md (u, w) = Some (u', w', p')"
    and "ptr_ok t (PC_Buffer res pkg md)"
  shows "md_frame (filename t) u u'"
proof (cases "length (buffer u) < MAX_TASK_BUFFER_LEN \<and> id_pri u \<noteq> task_id t
         \<and> package_count u > task_id t + 1")
  case True
  define b where "b = \<lparr>bt_id = task_id t, bt_res = res, bt_pkg = pkg,
                         bt_location_href =
                           (if pkg_is_md pkg md then Some (task_location_href u t) else None),
                         bt_pkg_from_md = pkg_is_md pkg md\<rparr>"
  have eq: "step_buffer X t res pkg md (u, w) =
      (case (if pkg_is_md pkg md then set_location_href pkg (task_location_href u t) u
             else Some u) of
         None \<Rightarrow> None
       | Some u1 \<Rightarrow>
           Some (u1\<lparr>buffer := g_queue_insert_sorted (buffer u1) b buf_task_sort_func\<rparr>,
                 w, PC_Done))"
    unfolding b_def step_buffer.simps Let_def using True
    by (simp only: if_True simp_thms not_False_eq_True)
  from assms(1) obtain u1 where
    u1: "(if pkg_is_md pkg md then set_location_href pkg (task_location_href u t) u
          else Some u) = Some u1"
    and u': "u' = u1\<lparr>buffer := g_queue_insert_sorted (buffer u1) b buf_task_sort_func\<rparr>"
    unfolding eq by (cases "if pkg_is_md pkg md then set_location_href pkg (task_location_href u t) u
          else Some u") simp_all
  have "md_frame (filename t) u u1"
  proof (cases "pkg_is_md pkg md")
    case True
    with u1 set_location_href_frame[OF _ assms(2)] show ?thesis by simp
  next
    case False
    with u1 show ?thesis by simp
  qed
  with u' show ?thesis by (simp add: md_frame_buffer)
next
  case False
  from step_buffer_nodefer[OF assms(1) False] show ?thesis by simp
qed

lemma thread_step_frame:
  assumes st: "thread_step X t (u, w, p) = Some (u', w', p')"
    and ptr: "ptr_ok t p"
    and sb: "\<forall>sb. p = PC_Update sb \<longrightarrow> stat_buf_ok X u t sb"
  shows "md_frame (filename t) u u' \<and> ptr_ok t p' \<and> p' \<noteq> PC_Undefined
         \<and> (\<forall>sb. p' = PC_Update sb \<longrightarrow> stat_buf_ok X u t sb)"
proof (cases p)
  case PC_Stat
  with st step_stat_frame[of X t u w u' w' p'] show ?thesis by auto
next
  case (PC_Update x)
  with st sb step_update_frame[of X t x u w u' w' p'] show ?thesis by auto
next
  case (PC_Load ou md)
  with st ptr step_load_frame[of X t ou md u w u' w' p'] show ?thesis by auto
next
  case (PC_Buffer res pkg md)
  with st ptr step_buffer_frame[of X t res pkg md u w u' w' p'] have "md_frame (filename t) u u'"
    by simp
  moreover from st PC_Buffer have "p' = PC_Done \<or> p' = PC_Write Primary res pkg"
    by (auto simp: Let_def split: if_splits option.splits)
  ultimately show ?thesis by auto
next
  case (PC_Write s res pkg)
  with st obtain u1 w1 where ws: "write_stream s X (task_id t) res pkg (u, w) = Some (u1, w1)"
    and e: "u' = u1" "p' = after_write s res pkg"
    by (auto simp: thread_step_Write)
  from write_stream_Some[OF ws] e have "\<exists>f db. u' = bump s (task_id t) f db u" by blast
  then have "md_frame (filename t) u u'" by auto
  moreover from e have "ptr_ok t p' \<and> p' \<noteq> PC_Undefined \<and> (\<forall>sb. p' \<noteq> PC_Update sb)"
    by (cases s) auto
  ultimately show ?thesis by blast
next
  case (PC_Cleanup x)
  with st show ?thesis by (auto split: if_splits)
next
  case (PC_Skip s)
  with st obtain u1 where ws: "skip_stream s (task_id t) u = Some u1"
    and e: "u' = u1" "p' = after_skip s"
    by (auto simp: thread_step_Skip)
  from skip_stream_Some[OF ws] e have "\<exists>f db. u' = bump s (task_id t) f db u" by blast
  then have "md_frame (filename t) u u'" by auto
  moreover from e have "ptr_ok t p' \<and> p' \<noteq> PC_Undefined \<and> (\<forall>sb. p' \<noteq> PC_Update sb)"
    by (cases s) auto
  ultimately show ?thesis by blast
next
  case PC_Drain
  with st have "(u' = u \<or> (\<exists>r. u' = u\<lparr>buffer := r\<rparr>)) \<and> (p' = PC_Done \<or> (\<exists>b. p' = PC_DrainWrite Primary b))"
    by (auto split: list.splits if_splits)
  then show ?thesis by (auto simp: md_frame_buffer)
next
  case (PC_DrainWrite s b)
  with st obtain u1 w1 where ws: "write_stream s X (bt_id b) (bt_res b) (bt_pkg b) (u, w) = Some (u1, w1)"
    and e: "u' = u1" "p' = after_drain_write s b"
    by (auto simp: thread_step_DrainWrite)
  from write_stream_Some[OF ws] e have "\<exists>f db. u' = bump s (bt_id b) f db u" by blast
  then have "md_frame (filename t) u u'" by auto
  moreover from e have "ptr_ok t p' \<and> p' \<noteq> PC_Undefined \<and> (\<forall>sb. p' \<noteq> PC_Update sb)"
    by (cases s) auto
  ultimately show ?thesis by blast
next
  case PC_Done
  with st show ?thesis by simp
next
  case PC_Abort
  with st show ?thesis by simp
next
  case PC_Undefined
  with st show ?thesis by simp
qed


lemma inv_cfg_step:
  assumes inv: "inv_cfg X ts u0 s" and step: "sched_step X ts pool i s = Some s'"
  shows "inv_cfg X ts u0 s'"
proof -
  from sched_stepD[OF step] obtain u' w' p' where i: "i < length ts" and
    ts: "thread_step X (ts ! i) (ud s, world s, pcs s i) = Some (u', w', p')"
    and s': "s' = \<lparr>ud = u', world = w', pcs = (pcs s)(i := p')\<rparr>"
    by blast
  from inv have c: "cfg_eq u0 (ud s)"
    and I: "\<And>k. k < length ts \<Longrightarrow> ptr_ok (ts ! k) (pcs s k) \<and> pcs s k \<noteq> PC_Undefined
            \<and> (\<forall>sb. pcs s k = PC_Update sb \<longrightarrow> stat_buf_ok X u0 (ts ! k) sb)"
    by (simp_all add: inv_cfg_def)
  from I[OF i] stat_buf_ok_cfg[OF c] have
    "ptr_ok (ts ! i) (pcs s i)" "\<forall>sb. pcs s i = PC_Update sb \<longrightarrow> stat_buf_ok X (ud s) (ts ! i) sb"
    by auto
  from thread_step_frame[OF ts this] have
    f: "md_frame (filename (ts ! i)) (ud s) u'" and
    p: "ptr_ok (ts ! i) p'" "p' \<noteq> PC_Undefined"
       "\<forall>sb. p' = PC_Update sb \<longrightarrow> stat_buf_ok X (ud s) (ts ! i) sb"
    by simp_all
  from f c have c': "cfg_eq u0 u'" by (auto simp: md_frame_def intro: cfg_eq_trans)
  from p stat_buf_ok_cfg[OF c] have p3: "\<forall>sb. p' = PC_Update sb \<longrightarrow> stat_buf_ok X u0 (ts ! i) sb"
    by auto
  have "ptr_ok (ts ! k) (pcs s' k) \<and> pcs s' k \<noteq> PC_Undefined
            \<and> (\<forall>sb. pcs s' k = PC_Update sb \<longrightarrow> stat_buf_ok X u0 (ts ! k) sb)"
    if k: "k < length ts" for k
  proof (cases "k = i")
    case True
    with p(1,2) p3 show ?thesis by (simp add: s')
  next
    case False
    with I[OF k] show ?thesis by (simp add: s')
  qed
  with c' show ?thesis
    unfolding inv_cfg_def by (simp add: s')
qed

lemma inv_cfg_run:
  assumes "run_schedule X ts pool sched s = Some s'" and "inv_cfg X ts u0 s"
  shows "inv_cfg X ts u0 s'"
  using assms
proof (induction sched arbitrary: s)
  case Nil
  then show ?case by simp
next
  case (Cons i sched)
  from Cons.prems(1) obtain s1 where s1: "sched_step X ts pool i s = Some s1"
    and r: "run_schedule X ts pool sched s1 = Some s'"
    by (auto simp: bind_eq_Some_conv)
  from Cons.IH[OF r inv_cfg_step[OF Cons.prems(2) s1]] show ?case .
qed

lemma inv_cfg_init: "inv_cfg X ts u (init_sys u)"
  by (simp add: inv_cfg_def init_sys_def)

lemma step_update_enabled: "\<exists>u' w' p'. step_update X t sb (u, w) = Some (u', w', p')"
proof (cases "old_metadata u")
  case None
  then show ?thesis by simp
next
  case (Some ht)
  show ?thesis
  proof (cases "ht (filename t)")
    case None
    with Some show ?thesis by simp
  next
    case (Some md)
    with \<open>old_metadata u = Some ht\<close> show ?thesis
      by (cases "skip_stat u"; cases sb) (simp_all add: Let_def)
  qed
qed

lemma update_reads_stat_buf: "(\<exists>u' w'. step_update X t None (u1, w1) = Some (u', w', PC_Undefined))
           \<longleftrightarrow> (old_metadata u1 \<noteq> None \<and> md_at u1 (filename t) \<noteq> None \<and> \<not> skip_stat u1)"
proof (cases "old_metadata u1")
  case None
  then show ?thesis by (simp add: md_at_def)
next
  case (Some ht)
  show ?thesis
  proof (cases "ht (filename t)")
    case None
    with Some show ?thesis by (simp add: md_at_def)
  next
    case (Some md)
    with \<open>old_metadata u1 = Some ht\<close> show ?thesis
      by (cases "skip_stat u1") (simp_all add: md_at_def Let_def)
  qed
qed

lemma stat_failure_cleanup: "\<exists>w'. step_stat X t (u1, w1) = Some (u1, w', PC_Cleanup True)"
    if "old_metadata u1 \<noteq> None \<and> \<not> skip_stat u1 \<and> stat_file X (full_path t) = Inl e"
    using that by (simp add: do_stat_def)

text \<open>Claim C10. In no state of any run has an invocation read a \<^verbatim>\<open>stat_buf\<close> that was
  not written. When an invocation stands in front of the look-up of lines 260-289, its
  \<^verbatim>\<open>stat_buf\<close> has been written exactly when old metadata are configured and
  \<^verbatim>\<open>skip_stat\<close> is off, and then it holds what \<^verbatim>\<open>stat\<close> returns for the file. The look-up
  reads \<^verbatim>\<open>stat_buf\<close> exactly when old metadata are configured, hold an entry for the
  filename, and \<^verbatim>\<open>skip_stat\<close> is off (that is where a \<^verbatim>\<open>stat_buf\<close> never written would
  be read). A failed \<^verbatim>\<open>stat\<close> leads to \<^verbatim>\<open>task_cleanup\<close>, not to the look-up.\<close>

theorem C10_stat_buf_initialised:
  assumes "run_schedule X ts pool sched (init_sys u) = Some s"
    and "i < length ts"
  shows "pcs s i \<noteq> PC_Undefined
     \<and> (\<forall>sb. pcs s i = PC_Update sb \<longrightarrow>
           (sb \<noteq> None \<longleftrightarrow> old_metadata (ud s) \<noteq> None \<and> \<not> skip_stat (ud s))
         \<and> (\<forall>x. sb = Some x \<longrightarrow> stat_file X (full_path (ts ! i)) = Inr x)
         \<and> (\<exists>u' w' p'. step_update X (ts ! i) sb (ud s, world s) = Some (u', w', p')
               \<and> p' \<noteq> PC_Undefined))
     \<and> (\<forall>t u1 w1. (\<exists>u' w'. step_update X t None (u1, w1) = Some (u', w', PC_Undefined))
           \<longleftrightarrow> (old_metadata u1 \<noteq> None \<and> md_at u1 (filename t) \<noteq> None \<and> \<not> skip_stat u1))
     \<and> (\<forall>t u1 w1 e. old_metadata u1 \<noteq> None \<and> \<not> skip_stat u1
           \<and> stat_file X (full_path t) = Inl e
           \<longrightarrow> (\<exists>w'. step_stat X t (u1, w1) = Some (u1, w', PC_Cleanup True)))"
proof -
  note inv = inv_cfg_run[OF assms(1) inv_cfg_init]
  from inv assms(2) have c: "cfg_eq u (ud s)" and nu: "pcs s i \<noteq> PC_Undefined"
    and sb: "\<And>sb. pcs s i = PC_Update sb \<Longrightarrow> stat_buf_ok X u (ts ! i) sb"
    by (simp_all add: inv_cfg_def)
  have a: "(sb \<noteq> None \<longleftrightarrow> old_metadata (ud s) \<noteq> None \<and> \<not> skip_stat (ud s))
         \<and> (\<forall>x. sb = Some x \<longrightarrow> stat_file X (full_path (ts ! i)) = Inr x)
         \<and> (\<exists>u' w' p'. step_update X (ts ! i) sb (ud s, world s) = Some (u', w', p')
               \<and> p' \<noteq> PC_Undefined)"
    if "pcs s i = PC_Update sb" for sb
  proof -
    from sb[OF that] stat_buf_ok_cfg[OF c] have ok: "stat_buf_ok X (ud s) (ts ! i) sb" by simp
    then have "(sb \<noteq> None \<longleftrightarrow> old_metadata (ud s) \<noteq> None \<and> \<not> skip_stat (ud s))
         \<and> (\<forall>x. sb = Some x \<longrightarrow> stat_file X (full_path (ts ! i)) = Inr x)"
      by (auto simp: stat_buf_ok_def split: option.splits)
    moreover from step_update_enabled[of X "ts ! i" sb "ud s" "world s"] obtain u' w' p'
      where su: "step_update X (ts ! i) sb (ud s, world s) = Some (u', w', p')" by blast
    from step_update_frame[OF su ok] have "p' \<noteq> PC_Undefined" by auto
    with su have "\<exists>u' w' p'. step_update X (ts ! i) sb (ud s, world s) = Some (u', w', p')
               \<and> p' \<noteq> PC_Undefined" by blast
    ultimately show ?thesis by blast
  qed
  have p2: "\<forall>sb. pcs s i = PC_Update sb \<longrightarrow>
           (sb \<noteq> None \<longleftrightarrow> old_metadata (ud s) \<noteq> None \<and> \<not> skip_stat (ud s))
         \<and> (\<forall>x. sb = Some x \<longrightarrow> stat_file X (full_path (ts ! i)) = Inr x)
         \<and> (\<exists>u' w' p'. step_update X (ts ! i) sb (ud s, world s) = Some (u', w', p')
               \<and> p' \<noteq> PC_Undefined)"
  proof (rule allI, rule impI)
    fix sb assume "pcs s i = PC_Update sb"
    then show "(sb \<noteq> None \<longleftrightarrow> old_metadata (ud s) \<noteq> None \<and> \<not> skip_stat (ud s))
         \<and> (\<forall>x. sb = Some x \<longrightarrow> stat_file X (full_path (ts ! i)) = Inr x)
         \<and> (\<exists>u' w' p'. step_update X (ts ! i) sb (ud s, world s) = Some (u', w', p')
               \<and> p' \<noteq> PC_Undefined)" by (rule a)
  qed
  have p3: "\<forall>t u1 w1. (\<exists>u' w'. step_update X t None (u1, w1) = Some (u', w', PC_Undefined))
           \<longleftrightarrow> (old_metadata u1 \<noteq> None \<and> md_at u1 (filename t) \<noteq> None \<and> \<not> skip_stat u1)"
    by (intro allI) (rule update_reads_stat_buf)
  have p4: "\<forall>t u1 w1 e. old_metadata u1 \<noteq> None \<and> \<not> skip_stat u1
           \<and> stat_file X (full_path t) = Inl e
           \<longrightarrow> (\<exists>w'. step_stat X t (u1, w1) = Some (u1, w', PC_Cleanup True))"
  proof (intro allI, rule impI)
    fix t :: PoolTask and u1 :: UserData and w1 :: World and e :: string
    assume "old_metadata u1 \<noteq> None \<and> \<not> skip_stat u1 \<and> stat_file X (full_path t) = Inl e"
    then show "\<exists>w'. step_stat X t (u1, w1) = Some (u1, w', PC_Cleanup True)"
      by (rule stat_failure_cleanup)
  qed
  show ?thesis
    apply (rule conjI)
     apply (rule nu)
    apply (rule conjI)
     apply (rule p2)
    apply (rule conjI)
     apply (rule p3)
    apply (rule p4)
    done
qed

theorem C10_stat_buf_initialised_witness:
  "1 < length ex_tasks3
   \<and> (\<exists>s. run_schedule ex_ext ex_tasks3 2 [1] (init_sys ex_ud3) = Some s
        \<and> pcs s 1 = PC_Update (Some \<lparr>st_mtime = 100, st_size = 10\<rparr>)
        \<and> old_metadata (ud s) \<noteq> None \<and> \<not> skip_stat (ud s)
        \<and> stat_file ex_ext (full_path (ex_tasks3 ! 1)) = Inr \<lparr>st_mtime = 100, st_size = 10\<rparr>)"
proof -
  have "map_option (\<lambda>s. pcs s 1) (run_schedule ex_ext ex_tasks3 2 [1] (init_sys ex_ud3))
        = Some (PC_Update (Some \<lparr>st_mtime = 100, st_size = 10\<rparr>))"
    by code_simp
  then obtain s where r: "run_schedule ex_ext ex_tasks3 2 [1] (init_sys ex_ud3) = Some s"
    and p: "pcs s 1 = PC_Update (Some \<lparr>st_mtime = 100, st_size = 10\<rparr>)"
    by auto
  have l: "1 < length ex_tasks3" by (simp add: ex_tasks3_def)
  from C10_stat_buf_initialised[OF r l] p have
    "old_metadata (ud s) \<noteq> None \<and> \<not> skip_stat (ud s)
     \<and> stat_file ex_ext (full_path (ex_tasks3 ! 1)) = Inr \<lparr>st_mtime = 100, st_size = 10\<rparr>"
    by auto
  with r p l show ?thesis by blast
qed

end
